theory Spec2Isabelle
  imports Main
begin

section \<open>Values thrown by the library\<close>

text \<open>
  The library throws plain strings; a callback or an iterator supplied by the caller can
  throw anything. Each constructor names the literal of the source.
\<close>

datatype error =
    ElementNotFound          \<comment> \<open>\<^verbatim>\<open>throw "Element not found"\<close>\<close>
  | MoreThanOneMatch         \<comment> \<open>\<^verbatim>\<open>throw "Sequence contains more that one matching element"\<close>\<close>
  | NotSupported             \<comment> \<open>\<^verbatim>\<open>throw "Not supported"\<close>\<close>
  | NotSupportedType string  \<comment> \<open>\<^verbatim>\<open>throw "Not supported type " + type\<close>\<close>
  | TypeError                \<comment> \<open>raised by the language itself, e.g. a symbol used as an operand\<close>
  | UserThrown string        \<comment> \<open>whatever a callback or a foreign iterator throws\<close>

section \<open>Sequences as the outcomes of their pulls\<close>

text \<open>
  One call of \<^verbatim>\<open>next()\<close> either yields an element, or throws, or signals done. A finite
  sequence is the list of the outcomes of its remaining pulls; after the last one it
  signals done. A \<^verbatim>\<open>for (let item of this)\<close> loop is a recursion over that list: it runs
  its body on every yielded element and stops at the end of the list or at the first
  pull that throws, which it propagates (a generator that propagates an exception is
  finished, so nothing follows).
\<close>

datatype 'a pull = Yields 'a | Throws error

type_synonym 'a IEnumerable = "'a pull list"

text \<open>
  \<^verbatim>\<open>Sequence<T>\<close>, the argument type of \<^verbatim>\<open>from()\<close>: null or undefined, an array, or an
  iterator (given by the outcomes of its pulls).
\<close>

datatype 'a Sequence = Nullish | ArrayLike "'a list" | Iterator "'a pull list"

fun Enumerable_from :: "'a Sequence \<Rightarrow> 'a IEnumerable" where
  "Enumerable_from Nullish = []"
| "Enumerable_from (ArrayLike arr) = map Yields arr"
| "Enumerable_from (Iterator it) = it"

text \<open>\<^verbatim>\<open>toArray()\<close>: push every item; an exception of a pull leaves the loop.\<close>

fun toArray :: "'a IEnumerable \<Rightarrow> error + 'a list" where
  "toArray [] = Inr []"
| "toArray (Throws e # rest) = Inl e"
| "toArray (Yields i # rest) =
     (case toArray rest of Inl e \<Rightarrow> Inl e | Inr ARR \<Rightarrow> Inr (i # ARR))"

section \<open>zip\<close>

text \<open>
  \<^verbatim>\<open>zipInner\<close>: \<^verbatim>\<open>i\<close> starts at -1; each round pulls \<^verbatim>\<open>this\<close>, leaves when it is done, pulls
  \<^verbatim>\<open>second\<close>, leaves when it is done, and yields \<^verbatim>\<open>resultSelector(x, y, ++i)\<close>.
\<close>

fun zipInner :: "('a \<Rightarrow> 'b \<Rightarrow> int \<Rightarrow> 'c) \<Rightarrow> int \<Rightarrow> 'a IEnumerable \<Rightarrow> 'b IEnumerable \<Rightarrow> 'c IEnumerable" where
  "zipInner resultSelector i [] second = []"
| "zipInner resultSelector i (Throws e # this) second = [Throws e]"
| "zipInner resultSelector i (Yields x # this) [] = []"
| "zipInner resultSelector i (Yields x # this) (Throws e # second) = [Throws e]"
| "zipInner resultSelector i (Yields x # this) (Yields y # second) =
     Yields (resultSelector x y (i + 1)) # zipInner resultSelector (i + 1) this second"

text \<open>
  \<^verbatim>\<open>zip(second, resultSelector)\<close>: a missing selector is replaced by \<^verbatim>\<open>(x, y) => x + y\<close>;
  \<^verbatim>\<open>js_plus\<close> is the language's \<^verbatim>\<open>+\<close> on the elements.
\<close>

definition Enumerable_zip :: "('a \<Rightarrow> 'b \<Rightarrow> 'c) \<Rightarrow> 'b Sequence \<Rightarrow> ('a \<Rightarrow> 'b \<Rightarrow> int \<Rightarrow> 'c) option
    \<Rightarrow> 'a IEnumerable \<Rightarrow> 'c IEnumerable" where
  "Enumerable_zip js_plus second resultSelector this =
     (let resultSelector' = (case resultSelector of None \<Rightarrow> (\<lambda>x y i. js_plus x y) | Some f \<Rightarrow> f)
      in zipInner resultSelector' (- 1) this (Enumerable_from second))"

section \<open>Safe predicates, skip and take, range\<close>

text \<open>
  A predicate argument as the caller passes it: null or undefined, some other value that
  is not a function (only its truthiness \<^verbatim>\<open>!!predicate\<close> is used), or a function.
\<close>

datatype 'a PredicateArg = NoPredicate | NotAFunction bool | Function "'a \<Rightarrow> bool"

fun toPredicateSafe :: "'a PredicateArg \<Rightarrow> ('a \<Rightarrow> bool)" where
  "toPredicateSafe NoPredicate = (\<lambda>item. True)"
| "toPredicateSafe (NotAFunction RESULT) = (\<lambda>item. RESULT)"
| "toPredicateSafe (Function predicate) = predicate"

text \<open>
  \<^verbatim>\<open>_skipWhileInner\<close> and \<^verbatim>\<open>_takeWhileInner\<close>. The predicate that \<^verbatim>\<open>skip\<close> and \<^verbatim>\<open>take\<close> pass is the
  closure \<^verbatim>\<open>() => count-- > 0\<close>, which updates the variable it captures; so the predicate
  is modelled with the captured state \<open>s\<close> it reads and returns. (A function goes through
  \<^verbatim>\<open>toPredicateSafe\<close> unchanged.) In \<^verbatim>\<open>_skipWhileInner\<close> the predicate is no longer called once
  \<^verbatim>\<open>returnItem\<close> is set; in \<^verbatim>\<open>_takeWhileInner\<close> the first false answer leaves the loop.
\<close>

fun skipWhileInner :: "('s \<Rightarrow> 'a \<Rightarrow> bool \<times> 's) \<Rightarrow> 's \<Rightarrow> bool \<Rightarrow> 'a IEnumerable \<Rightarrow> 'a IEnumerable" where
  "skipWhileInner predicate s returnItem [] = []"
| "skipWhileInner predicate s returnItem (Throws e # rest) = [Throws e]"
| "skipWhileInner predicate s returnItem (Yields item # rest) =
     (if \<not> returnItem then
        (case predicate s item of
           (True, s') \<Rightarrow> skipWhileInner predicate s' False rest
         | (False, s') \<Rightarrow> Yields item # skipWhileInner predicate s' True rest)
      else Yields item # skipWhileInner predicate s True rest)"

fun takeWhileInner :: "('s \<Rightarrow> 'a \<Rightarrow> bool \<times> 's) \<Rightarrow> 's \<Rightarrow> 'a IEnumerable \<Rightarrow> 'a IEnumerable" where
  "takeWhileInner predicate s [] = []"
| "takeWhileInner predicate s (Throws e # rest) = [Throws e]"
| "takeWhileInner predicate s (Yields item # rest) =
     (case predicate s item of
        (True, s') \<Rightarrow> Yields item # takeWhileInner predicate s' rest
      | (False, s') \<Rightarrow> [])"

definition skipWhile :: "'a PredicateArg \<Rightarrow> 'a IEnumerable \<Rightarrow> 'a IEnumerable" where
  "skipWhile predicate this = skipWhileInner (\<lambda>s item. (toPredicateSafe predicate item, s)) () False this"

definition takeWhile :: "'a PredicateArg \<Rightarrow> 'a IEnumerable \<Rightarrow> 'a IEnumerable" where
  "takeWhile predicate this = takeWhileInner (\<lambda>s item. (toPredicateSafe predicate item, s)) () this"

text \<open>
  \<^verbatim>\<open>count = parseInt(toStringSafe(count).trim()); if (isNaN(count)) count = 1\<close>: the count is
  an integer, or \<open>None\<close> for a missing argument or one that does not parse to a number.
\<close>

definition countOrOne :: "int option \<Rightarrow> int" where
  "countOrOne count = (case count of None \<Rightarrow> 1 | Some c \<Rightarrow> c)"

text \<open>The closure \<^verbatim>\<open>() => count-- > 0\<close>: answer with the old count, then decrement.\<close>

definition countDown :: "int \<Rightarrow> 'a \<Rightarrow> bool \<times> int" where
  "countDown count item = (count > 0, count - 1)"

definition skip :: "int option \<Rightarrow> 'a IEnumerable \<Rightarrow> 'a IEnumerable" where
  "skip count this = skipWhileInner countDown (countOrOne count) False this"

definition Enumerable_take :: "int option \<Rightarrow> 'a IEnumerable \<Rightarrow> 'a IEnumerable" where
  "Enumerable_take count this = takeWhileInner countDown (countOrOne count) this"

text \<open>
  \<^verbatim>\<open>rangeInner\<close>, for a count that is a number: \<^verbatim>\<open>if (count-- < 1) break; yield current++\<close>.
\<close>

function rangeInner :: "int \<Rightarrow> int \<Rightarrow> int IEnumerable" where
  "rangeInner current count =
     (if count < 1 then [] else Yields current # rangeInner (current + 1) (count - 1))"
  by pat_completeness auto
termination
  by (relation "measure (\<lambda>(current, count). nat count)") auto

text \<open>
  \<^verbatim>\<open>range(start, count)\<close>: a start that is not a number becomes 0. With a count that is not a
  number the generator never ends: it has no finite list of pulls, which is the value
  \<open>None\<close> here.
\<close>

definition Enumerable_range :: "int option \<Rightarrow> int option \<Rightarrow> int IEnumerable option" where
  "Enumerable_range start count =
     (let start' = (case start of None \<Rightarrow> 0 | Some v \<Rightarrow> v)
      in case count of None \<Rightarrow> None | Some c \<Rightarrow> Some (rangeInner start' c))"

section \<open>forAll and its error wrappers\<close>

text \<open>
  An \<^verbatim>\<open>EachAction\<close> is called with the item and its index; it returns nothing, or throws:
  \<open>Some e\<close> is the thrown value.
\<close>

type_synonym 'a EachAction = "'a \<Rightarrow> int \<Rightarrow> error option"

text \<open>\<^verbatim>\<open>FunctionError(err, func, index)\<close> stores its three arguments.\<close>

record 'a FunctionError =
  fe_error :: error
  fe_function :: "'a EachAction"
  fe_index :: int

text \<open>
  \<^verbatim>\<open>AggregateError(errors)\<close>: a missing list is the empty list, and entries that are null
  or undefined (\<open>None\<close>) are filtered out.
\<close>

record 'x AggregateError =
  errors :: "'x list"

definition new_AggregateError :: "'x option list option \<Rightarrow> 'x AggregateError" where
  "new_AggregateError errs =
     \<lparr>errors = map the (filter (\<lambda>e. e \<noteq> None) (case errs of None \<Rightarrow> [] | Some l \<Rightarrow> l))\<rparr>"

text \<open>
  The loop of \<^verbatim>\<open>forAll\<close>, with its two variables \<^verbatim>\<open>ERRORS\<close> and \<^verbatim>\<open>i\<close>: only what the action
  throws is caught; an exception of the iteration itself leaves the loop.
\<close>

fun forAll_loop :: "'a EachAction option \<Rightarrow> 'a FunctionError list \<Rightarrow> int \<Rightarrow> 'a IEnumerable
    \<Rightarrow> error + ('a FunctionError list \<times> int)" where
  "forAll_loop action ERRORS i [] = Inr (ERRORS, i)"
| "forAll_loop action ERRORS i (Throws e # rest) = Inl e"
| "forAll_loop action ERRORS i (Yields item # rest) =
     (case action of
        None \<Rightarrow> forAll_loop action ERRORS (i + 1) rest
      | Some f \<Rightarrow>
          (case f item (i + 1) of
             None \<Rightarrow> forAll_loop action ERRORS (i + 1) rest
           | Some e \<Rightarrow>
               forAll_loop action
                 (ERRORS @ [\<lparr>fe_error = e, fe_function = f, fe_index = i + 1\<rparr>]) (i + 1) rest))"

datatype 'a forAll_thrown =
    Aggregate "'a FunctionError AggregateError"  \<comment> \<open>\<^verbatim>\<open>throw new AggregateError(ERRORS)\<close>\<close>
  | Propagated error                              \<comment> \<open>an exception of the iteration\<close>

definition forAll :: "'a EachAction option \<Rightarrow> 'a IEnumerable \<Rightarrow> 'a forAll_thrown + unit" where
  "forAll action this =
     (case forAll_loop action [] (- 1) this of
        Inl e \<Rightarrow> Inl (Propagated e)
      | Inr (ERRORS, i) \<Rightarrow>
          if length ERRORS > 0 then Inl (Aggregate (new_AggregateError (Some (map Some ERRORS))))
          else Inr ())"

section \<open>single and singleOrDefault\<close>

text \<open>
  Symbols are compared by identity. The module creates \<^verbatim>\<open>IS_EMPTY\<close>, \<^verbatim>\<open>IS_ENUMERABLE\<close> and
  \<^verbatim>\<open>NOT_FOUND\<close> once and exports them; \<^verbatim>\<open>Symbol("ELEMENT_NOT_FOUND")\<close> is the symbol a running
  call creates for itself; every other symbol has a number.
\<close>

datatype symbol = IS_EMPTY | IS_ENUMERABLE | NOT_FOUND | ELEMENT_NOT_FOUND | OtherSymbol nat

text \<open>
  A value that is not a function: undefined, null, a symbol, or any other value (a number,
  a string, a boolean, an object), of which the model knows nothing but what the
  parameters of the functions below say.
\<close>

datatype 'u jsvalue = Undefined | Null | Symbol symbol | Value 'u

fun isNullOrUndefined :: "'u jsvalue \<Rightarrow> bool" where
  "isNullOrUndefined Undefined = True"
| "isNullOrUndefined Null = True"
| "isNullOrUndefined v = False"

text \<open>
  \<^verbatim>\<open>!!v\<close>: undefined and null are falsy, a symbol is truthy; for the other values the
  language's truthiness is the parameter \<open>truthy\<close>.
\<close>

fun toBoolean :: "('u \<Rightarrow> bool) \<Rightarrow> 'u jsvalue \<Rightarrow> bool" where
  "toBoolean truthy Undefined = False"
| "toBoolean truthy Null = False"
| "toBoolean truthy (Symbol s) = True"
| "toBoolean truthy (Value v) = truthy v"

text \<open>An argument of a call: a function (a predicate) or another value.\<close>

datatype ('a, 'u) Argument = IsFunction "'a \<Rightarrow> bool" | NotFunction "'u jsvalue"

fun asPredicateArg :: "('u \<Rightarrow> bool) \<Rightarrow> ('a, 'u) Argument \<Rightarrow> 'a PredicateArg" where
  "asPredicateArg truthy (IsFunction f) = Function f"
| "asPredicateArg truthy (NotFunction v) =
     (if isNullOrUndefined v then NoPredicate else NotAFunction (toBoolean truthy v))"

record ('a, 'u) OrDefaultArguments =
  ARGS_defaultValue :: "('a, 'u) Argument"
  ARGS_predicate :: "'a \<Rightarrow> bool"

text \<open>
  \<^verbatim>\<open>getOrDefaultArguments(predicateOrDefaultValue, defaultValue, paramCount)\<close>, on the list of
  the arguments the caller passed (\<^verbatim>\<open>paramCount\<close> is its length).
\<close>

fun getOrDefaultArguments :: "('u \<Rightarrow> bool) \<Rightarrow> ('a, 'u) Argument list \<Rightarrow> ('a, 'u) OrDefaultArguments" where
  "getOrDefaultArguments truthy [] =
     \<lparr>ARGS_defaultValue = NotFunction (Symbol NOT_FOUND), ARGS_predicate = toPredicateSafe NoPredicate\<rparr>"
| "getOrDefaultArguments truthy [IsFunction f] =
     \<lparr>ARGS_defaultValue = NotFunction (Symbol NOT_FOUND), ARGS_predicate = toPredicateSafe (Function f)\<rparr>"
| "getOrDefaultArguments truthy [NotFunction v] =
     \<lparr>ARGS_defaultValue = NotFunction v, ARGS_predicate = toPredicateSafe NoPredicate\<rparr>"
| "getOrDefaultArguments truthy (predicateOrDefaultValue # defVal # others) =
     \<lparr>ARGS_defaultValue = defVal, ARGS_predicate = toPredicateSafe (asPredicateArg truthy predicateOrDefaultValue)\<rparr>"

text \<open>
  The loop of \<^verbatim>\<open>singleOrDefault\<close>. Its variable \<^verbatim>\<open>result\<close> starts as a symbol created by the
  call itself, which no item can be: \<open>None\<close> here.
\<close>

fun singleOrDefault_loop :: "('a \<Rightarrow> bool) \<Rightarrow> 'a option \<Rightarrow> 'a IEnumerable \<Rightarrow> error + 'a option" where
  "singleOrDefault_loop p result [] = Inr result"
| "singleOrDefault_loop p result (Throws e # rest) = Inl e"
| "singleOrDefault_loop p result (Yields item # rest) =
     (if \<not> p item then singleOrDefault_loop p result rest
      else if result \<noteq> None then Inl MoreThanOneMatch
      else singleOrDefault_loop p (Some item) rest)"

text \<open>
  The result type \<^verbatim>\<open>T | U\<close>: the matching item, or the default value.
\<close>

datatype ('a, 'd) ItemOrDefault = Item 'a | DefaultValue 'd

definition singleOrDefault :: "('u \<Rightarrow> bool) \<Rightarrow> ('a, 'u) Argument list \<Rightarrow> 'a IEnumerable
    \<Rightarrow> error + ('a, ('a, 'u) Argument) ItemOrDefault" where
  "singleOrDefault truthy arguments this =
     (let ARGS = getOrDefaultArguments truthy arguments
      in case singleOrDefault_loop (ARGS_predicate ARGS) None this of
           Inl e \<Rightarrow> Inl e
         | Inr (Some result) \<Rightarrow> Inr (Item result)
         | Inr None \<Rightarrow> Inr (DefaultValue (ARGS_defaultValue ARGS)))"

text \<open>
  \<^verbatim>\<open>single(predicate)\<close> passes the safe predicate and a symbol of its own as the default, and
  throws when that symbol comes back, that is, when \<^verbatim>\<open>singleOrDefault\<close> answered with its
  default.
\<close>

definition single :: "'a PredicateArg \<Rightarrow> 'a IEnumerable \<Rightarrow> error + 'a" where
  "single predicate_arg this =
     (case singleOrDefault (\<lambda>u :: unit. True)
             [IsFunction (toPredicateSafe predicate_arg), NotFunction (Symbol ELEMENT_NOT_FOUND)] this of
        Inl e \<Rightarrow> Inl e
      | Inr (DefaultValue d) \<Rightarrow> Inl ElementNotFound
      | Inr (Item ITEM) \<Rightarrow> Inr ITEM)"

section \<open>select, aggregate, sum, average, min and max\<close>

text \<open>
  \<^verbatim>\<open>_selectManyInner\<close>: for every item of \<^verbatim>\<open>this\<close>, every item of \<^verbatim>\<open>from(selector(s))\<close> is
  yielded. A selector may throw.
\<close>

fun yieldAll :: "'b IEnumerable \<Rightarrow> 'b IEnumerable \<Rightarrow> 'b IEnumerable" where
  "yieldAll [] continue = continue"
| "yieldAll (Throws e # SEQ) continue = [Throws e]"
| "yieldAll (Yields item # SEQ) continue = Yields item # yieldAll SEQ continue"

fun selectManyInner :: "('a \<Rightarrow> error + 'b Sequence) \<Rightarrow> 'a IEnumerable \<Rightarrow> 'b IEnumerable" where
  "selectManyInner selector [] = []"
| "selectManyInner selector (Throws e # rest) = [Throws e]"
| "selectManyInner selector (Yields s # rest) =
     (case selector s of
        Inl e \<Rightarrow> [Throws e]
      | Inr SEQ \<Rightarrow> yieldAll (Enumerable_from SEQ) (selectManyInner selector rest))"

definition selectMany :: "('a \<Rightarrow> error + 'a Sequence) option \<Rightarrow> 'a IEnumerable \<Rightarrow> 'a IEnumerable" where
  "selectMany selector this =
     selectManyInner (case selector of None \<Rightarrow> (\<lambda>x. Inr (ArrayLike [x])) | Some f \<Rightarrow> f) this"








text \<open>
  \<^verbatim>\<open>toComparerSafe\<close>: the default comparer answers 0 for \<^verbatim>\<open>x === y\<close>, -1 for \<^verbatim>\<open>x < y\<close>, 1 for
  \<^verbatim>\<open>x > y\<close> and 0 otherwise. The two operators of the language are the parameters
  \<open>strict_eq\<close> and \<open>js_less\<close> (\<^verbatim>\<open>x > y\<close> is \<open>js_less y x\<close>). \<^verbatim>\<open>===\<close> never throws; \<^verbatim>\<open><\<close> throws a
  TypeError when an operand is a symbol, and what the conversion of an object throws. A
  comparer of the caller can throw too. The numbers that comparers return are integers
  here.
\<close>

definition toComparerSafe :: "('k \<Rightarrow> 'k \<Rightarrow> bool) \<Rightarrow> ('k \<Rightarrow> 'k \<Rightarrow> error + bool)
    \<Rightarrow> ('k \<Rightarrow> 'k \<Rightarrow> error + int) option \<Rightarrow> ('k \<Rightarrow> 'k \<Rightarrow> error + int)" where
  "toComparerSafe strict_eq js_less comparer =
     (case comparer of
        None \<Rightarrow>
          (\<lambda>x y. if strict_eq x y then Inr 0
                 else (case js_less x y of
                         Inl e \<Rightarrow> Inl e
                       | Inr is_less \<Rightarrow>
                           if is_less then Inr (- 1)
                           else (case js_less y x of
                                   Inl e \<Rightarrow> Inl e
                                 | Inr is_greater \<Rightarrow> if is_greater then Inr 1 else Inr 0)))
      | Some c \<Rightarrow> c)"





section \<open>Integers as the numbers of the examples\<close>


fun int_toNumber :: "int jsvalue \<Rightarrow> error + int option" where
  "int_toNumber Undefined = Inr None"
| "int_toNumber Null = Inr (Some 0)"
| "int_toNumber (Symbol s) = Inl TypeError"
| "int_toNumber (Value a) = Inr (Some a)"

definition int_less :: "int jsvalue \<Rightarrow> int jsvalue \<Rightarrow> error + bool" where
  "int_less x y =
     (case int_toNumber x of
        Inl e \<Rightarrow> Inl e
      | Inr a \<Rightarrow>
          (case int_toNumber y of
             Inl e \<Rightarrow> Inl e
           | Inr b \<Rightarrow> Inr (case (a, b) of (Some m, Some n) \<Rightarrow> m < n | other \<Rightarrow> False)))"



section \<open>Equality comparers, distinct, except and intersect\<close>

text \<open>
  The comparer argument of \<^verbatim>\<open>distinct\<close>, \<^verbatim>\<open>except\<close> and \<^verbatim>\<open>intersect\<close>, of type
  \<^verbatim>\<open>EqualityComparer<T> | true\<close>: missing (or any falsy value), \<^verbatim>\<open>true\<close>, or a function.
\<close>

datatype 'a EqualityComparerArg = NoComparer | StrictFlag | Comparer "'a \<Rightarrow> 'a \<Rightarrow> bool"

text \<open>
  \<^verbatim>\<open>toEqualityComparerSafe\<close>: \<^verbatim>\<open>(x, y) => x == y\<close> for a missing comparer, \<^verbatim>\<open>(x, y) => x === y\<close> for
  \<^verbatim>\<open>true\<close>. The two operators of the language are the parameters \<open>loose_eq\<close> and
  \<open>strict_eq\<close>.
\<close>

fun toEqualityComparerSafe :: "('a \<Rightarrow> 'a \<Rightarrow> bool) \<Rightarrow> ('a \<Rightarrow> 'a \<Rightarrow> bool) \<Rightarrow> 'a EqualityComparerArg
    \<Rightarrow> ('a \<Rightarrow> 'a \<Rightarrow> bool)" where
  "toEqualityComparerSafe loose_eq strict_eq NoComparer = loose_eq"
| "toEqualityComparerSafe loose_eq strict_eq StrictFlag = strict_eq"
| "toEqualityComparerSafe loose_eq strict_eq (Comparer comparer) = comparer"

text \<open>
  The inner loop the three generators share: \<^verbatim>\<open>item\<close> is compared with the entries of an
  array in order, as \<^verbatim>\<open>comparer(item, entry)\<close>, until one matches.
\<close>

fun foundIn :: "('a \<Rightarrow> 'a \<Rightarrow> bool) \<Rightarrow> 'a \<Rightarrow> 'a list \<Rightarrow> bool" where
  "foundIn comparer item [] = False"
| "foundIn comparer item (t # ts) = (if comparer item t then True else foundIn comparer item ts)"

text \<open>\<^verbatim>\<open>_distinctByInner\<close>, with its buffer \<^verbatim>\<open>TEMP\<close> of the keys seen so far.\<close>

fun distinctByInner :: "('a \<Rightarrow> 'a) \<Rightarrow> ('a \<Rightarrow> 'a \<Rightarrow> bool) \<Rightarrow> 'a list \<Rightarrow> 'a IEnumerable \<Rightarrow> 'a IEnumerable" where
  "distinctByInner selector comparer TEMP [] = []"
| "distinctByInner selector comparer TEMP (Throws e # rest) = [Throws e]"
| "distinctByInner selector comparer TEMP (Yields item # rest) =
     (let KEY_ITEM = selector item
      in if \<not> foundIn comparer KEY_ITEM TEMP
         then Yields item # distinctByInner selector comparer (TEMP @ [KEY_ITEM]) rest
         else distinctByInner selector comparer TEMP rest)"

definition distinctBy :: "('a \<Rightarrow> 'a \<Rightarrow> bool) \<Rightarrow> ('a \<Rightarrow> 'a \<Rightarrow> bool) \<Rightarrow> ('a \<Rightarrow> 'a) option
    \<Rightarrow> 'a EqualityComparerArg \<Rightarrow> 'a IEnumerable \<Rightarrow> 'a IEnumerable" where
  "distinctBy loose_eq strict_eq selector comparer this =
     distinctByInner (case selector of None \<Rightarrow> (\<lambda>i. i) | Some f \<Rightarrow> f)
       (toEqualityComparerSafe loose_eq strict_eq comparer) [] this"

definition Enumerable_distinct :: "('a \<Rightarrow> 'a \<Rightarrow> bool) \<Rightarrow> ('a \<Rightarrow> 'a \<Rightarrow> bool) \<Rightarrow> 'a EqualityComparerArg
    \<Rightarrow> 'a IEnumerable \<Rightarrow> 'a IEnumerable" where
  "Enumerable_distinct loose_eq strict_eq comparer this =
     distinctBy loose_eq strict_eq (Some (\<lambda>x. x)) comparer this"

text \<open>\<^verbatim>\<open>_exceptInner\<close> and \<^verbatim>\<open>_intersectInner\<close>, on the array made of the second sequence.\<close>

fun exceptInner :: "'a list \<Rightarrow> ('a \<Rightarrow> 'a \<Rightarrow> bool) \<Rightarrow> 'a IEnumerable \<Rightarrow> 'a IEnumerable" where
  "exceptInner second comparer [] = []"
| "exceptInner second comparer (Throws e # rest) = [Throws e]"
| "exceptInner second comparer (Yields item # rest) =
     (if \<not> foundIn comparer item second then Yields item # exceptInner second comparer rest
      else exceptInner second comparer rest)"

fun intersectInner :: "'a list \<Rightarrow> ('a \<Rightarrow> 'a \<Rightarrow> bool) \<Rightarrow> 'a IEnumerable \<Rightarrow> 'a IEnumerable" where
  "intersectInner second comparer [] = []"
| "intersectInner second comparer (Throws e # rest) = [Throws e]"
| "intersectInner second comparer (Yields item # rest) =
     (if foundIn comparer item second then Yields item # intersectInner second comparer rest
      else intersectInner second comparer rest)"

text \<open>
  \<^verbatim>\<open>except(second, comparer)\<close> and \<^verbatim>\<open>intersect(second, comparer)\<close>: the call itself evaluates
  \<^verbatim>\<open>from(second).distinct().toArray()\<close> (\<^verbatim>\<open>distinct\<close> without a comparer) and
  \<^verbatim>\<open>toEqualityComparerSafe(comparer)\<close>, and hands both to the generator. The call throws what
  draining the second sequence throws; otherwise it returns the new sequence.
\<close>

definition except :: "('a \<Rightarrow> 'a \<Rightarrow> bool) \<Rightarrow> ('a \<Rightarrow> 'a \<Rightarrow> bool) \<Rightarrow> 'a Sequence \<Rightarrow> 'a EqualityComparerArg
    \<Rightarrow> 'a IEnumerable \<Rightarrow> error + 'a IEnumerable" where
  "except loose_eq strict_eq second comparer this =
     (case toArray (Enumerable_distinct loose_eq strict_eq NoComparer (Enumerable_from second)) of
        Inl e \<Rightarrow> Inl e
      | Inr arr \<Rightarrow> Inr (exceptInner arr (toEqualityComparerSafe loose_eq strict_eq comparer) this))"

definition intersect :: "('a \<Rightarrow> 'a \<Rightarrow> bool) \<Rightarrow> ('a \<Rightarrow> 'a \<Rightarrow> bool) \<Rightarrow> 'a Sequence \<Rightarrow> 'a EqualityComparerArg
    \<Rightarrow> 'a IEnumerable \<Rightarrow> error + 'a IEnumerable" where
  "intersect loose_eq strict_eq second comparer this =
     (case toArray (Enumerable_distinct loose_eq strict_eq NoComparer (Enumerable_from second)) of
        Inl e \<Rightarrow> Inl e
      | Inr arr \<Rightarrow> Inr (intersectInner arr (toEqualityComparerSafe loose_eq strict_eq comparer) this))"

text \<open>
  What the description of \<^verbatim>\<open>distinct\<close> says: the elements that are equal to no earlier
  element of the sequence, in the order of the sequence.
\<close>

definition first_occurrences :: "('a \<Rightarrow> 'a \<Rightarrow> bool) \<Rightarrow> 'a list \<Rightarrow> 'a list" where
  "first_occurrences eq xs =
     map (\<lambda>i. xs ! i) (filter (\<lambda>i. \<not> (\<exists>j<i. eq (xs ! i) (xs ! j))) [0..<length xs])"

text \<open>A comparer that is an equivalence relation on the values of a set.\<close>

definition equivalence_on :: "'a set \<Rightarrow> ('a \<Rightarrow> 'a \<Rightarrow> bool) \<Rightarrow> bool" where
  "equivalence_on A eq \<longleftrightarrow>
     (\<forall>x\<in>A. eq x x) \<and> (\<forall>x\<in>A. \<forall>y\<in>A. eq x y \<longrightarrow> eq y x)
     \<and> (\<forall>x\<in>A. \<forall>y\<in>A. \<forall>z\<in>A. eq x y \<longrightarrow> eq y z \<longrightarrow> eq x z)"

text \<open>
  Five literals of the language, \<^verbatim>\<open>""\<close>, \<^verbatim>\<open>"0"\<close>, \<^verbatim>\<open>"1"\<close>, \<^verbatim>\<open>0\<close> and \<^verbatim>\<open>1\<close>, with its two
  equalities: \<^verbatim>\<open>===\<close> holds between a literal and itself only; \<^verbatim>\<open>==\<close> converts a string to a
  number before it compares it with a number, so that \<^verbatim>\<open>"" == 0\<close>, \<^verbatim>\<open>"0" == 0\<close> and
  \<^verbatim>\<open>"1" == 1\<close> hold as well, while two different strings are never equal.
\<close>

datatype literal = str_empty | str_0 | str_1 | num_0 | num_1

definition literal_strict_eq :: "literal \<Rightarrow> literal \<Rightarrow> bool" where
  "literal_strict_eq x y \<longleftrightarrow> x = y"

definition literal_loose_eq :: "literal \<Rightarrow> literal \<Rightarrow> bool" where
  "literal_loose_eq x y \<longleftrightarrow>
     x = y \<or> (x, y) \<in> {(str_empty, num_0), (num_0, str_empty), (str_0, num_0), (num_0, str_0),
                        (str_1, num_1), (num_1, str_1)}"

text \<open>
  The same, told along the sequence: \<open>seen\<close> are the elements that came before.
\<close>

fun first_occurrences_after :: "('a \<Rightarrow> 'a \<Rightarrow> bool) \<Rightarrow> 'a list \<Rightarrow> 'a list \<Rightarrow> 'a list" where
  "first_occurrences_after eq seen [] = []"
| "first_occurrences_after eq seen (x # xs) =
     (if \<exists>y\<in>set seen. eq x y then first_occurrences_after eq (seen @ [x]) xs
      else x # first_occurrences_after eq (seen @ [x]) xs)"

section \<open>Ordered sequences\<close>

text \<open>
  \<^verbatim>\<open>Array.prototype.sort(compareFn)\<close> is the language's: stable, and for a consistent
  comparison function its result is the one arrangement that is sorted and keeps the
  elements that compare equal in their order. It is modelled by the insertion sort that
  puts every element, from the last to the first, before the first one it does not
  follow; what the comparison function throws leaves the sort. With a comparison function
  that is not consistent the language leaves the order to the implementation, and the
  model fixes this one.
\<close>

fun Array_sort_insert :: "('x \<Rightarrow> 'x \<Rightarrow> error + int) \<Rightarrow> 'x \<Rightarrow> 'x list \<Rightarrow> error + 'x list" where
  "Array_sort_insert compareFn x [] = Inr [x]"
| "Array_sort_insert compareFn x (y # ys) =
     (case compareFn x y of
        Inl e \<Rightarrow> Inl e
      | Inr v \<Rightarrow>
          if v \<le> 0 then Inr (x # y # ys)
          else (case Array_sort_insert compareFn x ys of Inl e \<Rightarrow> Inl e | Inr zs \<Rightarrow> Inr (y # zs)))"

fun Array_sort :: "('x \<Rightarrow> 'x \<Rightarrow> error + int) \<Rightarrow> 'x list \<Rightarrow> error + 'x list" where
  "Array_sort compareFn [] = Inr []"
| "Array_sort compareFn (x # xs) =
     (case Array_sort compareFn xs of Inl e \<Rightarrow> Inl e | Inr ys \<Rightarrow> Array_sort_insert compareFn x ys)"

text \<open>\<^verbatim>\<open>Array.prototype.map(callback)\<close>, for a callback that can throw.\<close>

fun Array_map :: "('a \<Rightarrow> error + 'b) \<Rightarrow> 'a list \<Rightarrow> error + 'b list" where
  "Array_map callback [] = Inr []"
| "Array_map callback (x # xs) =
     (case callback x of
        Inl e \<Rightarrow> Inl e
      | Inr y \<Rightarrow> (case Array_map callback xs of Inl e \<Rightarrow> Inl e | Inr ys \<Rightarrow> Inr (y # ys)))"

text \<open>The objects \<^verbatim>\<open>{sortBy, value}\<close> the constructor sorts.\<close>

record ('k, 'a) SortItem =
  sortBy :: 'k
  itemValue :: 'a

text \<open>
  An \<^verbatim>\<open>OrderedEnumerable\<close>: the wrapped sequence over the sorted values, the items in the
  original order, the comparer of the sort keys and the selector of the keys.
\<close>

record ('a, 'k) OrderedEnumerable =
  wrapped_sequence :: "'a IEnumerable"
  originalItems :: "'a list"
  orderComparer :: "'k \<Rightarrow> 'k \<Rightarrow> error + int"
  orderSelector :: "'a \<Rightarrow> error + 'k"

text \<open>
  The constructor: \<^verbatim>\<open>seq.toArray()\<close> is taken at once (and may throw), every item is paired
  with its key (the selector may throw), the pairs are sorted by
  \<^verbatim>\<open>comparer(x.sortBy, y.sortBy)\<close> (the comparer may throw) and the values are taken out
  again. The selector is the function in force (a missing one is the identity, the keys
  then being the items).
\<close>

definition new_OrderedEnumerable :: "('k \<Rightarrow> 'k \<Rightarrow> bool) \<Rightarrow> ('k \<Rightarrow> 'k \<Rightarrow> error + bool) \<Rightarrow> 'a IEnumerable
    \<Rightarrow> ('a \<Rightarrow> error + 'k) \<Rightarrow> ('k \<Rightarrow> 'k \<Rightarrow> error + int) option \<Rightarrow> error + ('a, 'k) OrderedEnumerable" where
  "new_OrderedEnumerable strict_eq js_less seq selector comparer =
     (let ME_comparer = toComparerSafe strict_eq js_less comparer
      in case toArray seq of
           Inl e \<Rightarrow> Inl e
         | Inr items \<Rightarrow>
             (case Array_map (\<lambda>x. case selector x of
                                     Inl e \<Rightarrow> Inl e
                                   | Inr key \<Rightarrow> Inr \<lparr>sortBy = key, itemValue = x\<rparr>) items of
                Inl e \<Rightarrow> Inl e
              | Inr pairs \<Rightarrow>
                  (case Array_sort (\<lambda>x y. ME_comparer (sortBy x) (sortBy y)) pairs of
                     Inl e \<Rightarrow> Inl e
                   | Inr sorted_pairs \<Rightarrow>
                       Inr \<lparr>wrapped_sequence = Enumerable_from (ArrayLike (map itemValue sorted_pairs)),
                            originalItems = items,
                            orderComparer = ME_comparer,
                            orderSelector = selector\<rparr>)))"

definition orderBy :: "('k \<Rightarrow> 'k \<Rightarrow> bool) \<Rightarrow> ('k \<Rightarrow> 'k \<Rightarrow> error + bool) \<Rightarrow> ('a \<Rightarrow> error + 'k)
    \<Rightarrow> ('k \<Rightarrow> 'k \<Rightarrow> error + int) option \<Rightarrow> 'a IEnumerable \<Rightarrow> error + ('a, 'k) OrderedEnumerable" where
  "orderBy strict_eq js_less selector comparer this =
     new_OrderedEnumerable strict_eq js_less this selector comparer"

text \<open>The composite keys \<^verbatim>\<open>{level_0, level_1}\<close> of \<^verbatim>\<open>thenBy\<close> and its composite comparer.\<close>

record ('k0, 'k1) Levels =
  level_0 :: 'k0
  level_1 :: 'k1

definition thenBy_comparer :: "('k0 \<Rightarrow> 'k0 \<Rightarrow> error + int) \<Rightarrow> ('k1 \<Rightarrow> 'k1 \<Rightarrow> error + int)
    \<Rightarrow> ('k0, 'k1) Levels \<Rightarrow> ('k0, 'k1) Levels \<Rightarrow> error + int" where
  "thenBy_comparer THIS_COMPARER comparer x y =
     (case THIS_COMPARER (level_0 x) (level_0 y) of
        Inl e \<Rightarrow> Inl e
      | Inr COMP_0 \<Rightarrow>
          if 0 \<noteq> COMP_0 then Inr COMP_0
          else (case comparer (level_1 x) (level_1 y) of
                  Inl e \<Rightarrow> Inl e
                | Inr COMP_1 \<Rightarrow> if 0 \<noteq> COMP_1 then Inr COMP_1 else Inr 0))"

text \<open>
  \<^verbatim>\<open>thenBy(selector, comparer)\<close>: \<^verbatim>\<open>from(this._originalItems).orderBy(...)\<close> with the composite
  selector and the composite comparer. As a comparer is passed, the operators \<^verbatim>\<open>===\<close> and
  \<^verbatim>\<open><\<close> on composite keys are never consulted.
\<close>

definition thenBy :: "('k1 \<Rightarrow> 'k1 \<Rightarrow> bool) \<Rightarrow> ('k1 \<Rightarrow> 'k1 \<Rightarrow> error + bool) \<Rightarrow> ('a \<Rightarrow> error + 'k1)
    \<Rightarrow> ('k1 \<Rightarrow> 'k1 \<Rightarrow> error + int) option
    \<Rightarrow> ('a, 'k0) OrderedEnumerable \<Rightarrow> error + ('a, ('k0, 'k1) Levels) OrderedEnumerable" where
  "thenBy strict_eq js_less selector comparer this =
     (let comparer' = toComparerSafe strict_eq js_less comparer;
          THIS_SELECTOR = orderSelector this;
          THIS_COMPARER = orderComparer this
      in orderBy (\<lambda>x y. False) (\<lambda>x y. Inr False)
           (\<lambda>x. case THIS_SELECTOR x of
                   Inl e \<Rightarrow> Inl e
                 | Inr key_0 \<Rightarrow>
                     (case selector x of
                        Inl e \<Rightarrow> Inl e
                      | Inr key_1 \<Rightarrow> Inr \<lparr>level_0 = key_0, level_1 = key_1\<rparr>))
           (Some (thenBy_comparer THIS_COMPARER comparer'))
           (Enumerable_from (ArrayLike (originalItems this))))"

text \<open>
  What a selector and a comparer compute where they do not throw: \<open>selector\<close> gives the
  key \<open>k x\<close> of every element of \<open>xs\<close>, and \<open>comparer\<close> answers \<open>c a b\<close> on the keys of \<open>K\<close>.
\<close>

definition selects :: "'a list \<Rightarrow> ('a \<Rightarrow> error + 'k) \<Rightarrow> ('a \<Rightarrow> 'k) \<Rightarrow> bool" where
  "selects xs selector k \<longleftrightarrow> (\<forall>x\<in>set xs. selector x = Inr (k x))"

definition answers :: "'k set \<Rightarrow> ('k \<Rightarrow> 'k \<Rightarrow> error + int) \<Rightarrow> ('k \<Rightarrow> 'k \<Rightarrow> int) \<Rightarrow> bool" where
  "answers K comparer c \<longleftrightarrow> (\<forall>a\<in>K. \<forall>b\<in>K. comparer a b = Inr (c a b))"

text \<open>
  The answers of the composite comparer, from those of its two levels: the answer of the
  first level when that is not 0, the answer of the second level otherwise.
\<close>

definition levels_answer :: "('k0 \<Rightarrow> 'k0 \<Rightarrow> int) \<Rightarrow> ('k1 \<Rightarrow> 'k1 \<Rightarrow> int)
    \<Rightarrow> ('k0, 'k1) Levels \<Rightarrow> ('k0, 'k1) Levels \<Rightarrow> int" where
  "levels_answer c0 c1 x y =
     (if c0 (level_0 x) (level_0 y) \<noteq> 0 then c0 (level_0 x) (level_0 y) else c1 (level_1 x) (level_1 y))"

text \<open>
  A consistent comparer on a set of keys: a key ties with itself, \<open>a\<close> comes before \<open>b\<close>
  exactly when \<open>b\<close> comes after \<open>a\<close>, and "not after" is transitive.
\<close>

definition consistent_comparer :: "'k set \<Rightarrow> ('k \<Rightarrow> 'k \<Rightarrow> int) \<Rightarrow> bool" where
  "consistent_comparer K c \<longleftrightarrow>
     (\<forall>a\<in>K. c a a = 0) \<and> (\<forall>a\<in>K. \<forall>b\<in>K. (c a b < 0) = (0 < c b a))
     \<and> (\<forall>a\<in>K. \<forall>b\<in>K. \<forall>d\<in>K. c a b \<le> 0 \<longrightarrow> c b d \<le> 0 \<longrightarrow> c a d \<le> 0)"

text \<open>
  A stable sort of \<open>xs\<close> by the keys \<open>k\<close> and the comparer \<open>c\<close>: the same elements, each
  as many times as in \<open>xs\<close>, no
  element before one it comes after, and the elements whose keys tie with the key of any
  given element in the order they have in \<open>xs\<close>.
\<close>

definition stable_sort_of :: "('a \<Rightarrow> 'k) \<Rightarrow> ('k \<Rightarrow> 'k \<Rightarrow> int) \<Rightarrow> 'a list \<Rightarrow> 'a list \<Rightarrow> bool" where
  "stable_sort_of k c xs ys \<longleftrightarrow>
     (\<forall>x. count_list ys x = count_list xs x)
     \<and> sorted_wrt (\<lambda>a b. c (k a) (k b) \<le> 0) ys
     \<and> (\<forall>x\<in>set xs. filter (\<lambda>y. c (k y) (k x) = 0) ys = filter (\<lambda>y. c (k y) (k x) = 0) xs)"

text \<open>
  The insertion sort of the model where the comparison function answers \<open>f\<close> without
  throwing.
\<close>

fun ordered_insert :: "('x \<Rightarrow> 'x \<Rightarrow> int) \<Rightarrow> 'x \<Rightarrow> 'x list \<Rightarrow> 'x list" where
  "ordered_insert f x [] = [x]"
| "ordered_insert f x (y # ys) =
     (if f x y \<le> 0 then x # y # ys else y # ordered_insert f x ys)"

definition insertion_sort :: "('x \<Rightarrow> 'x \<Rightarrow> int) \<Rightarrow> 'x list \<Rightarrow> 'x list" where
  "insertion_sort f arr = foldr (ordered_insert f) arr []"

section \<open>The cursor objects\<close>

text \<open>
  An \<^verbatim>\<open>IteratorResult\<close> \<^verbatim>\<open>{done, value}\<close>; the value is undefined (\<open>None\<close>) when done.
\<close>

record 'a IteratorResult =
  result_done :: bool
  result_value :: "'a option"

text \<open>
  The fields of \<^verbatim>\<open>EnumerableBase\<close>: \<^verbatim>\<open>_current\<close> (undefined until the first pull) and \<^verbatim>\<open>_index\<close>
  (-1 at construction). Its \<^verbatim>\<open>reset()\<close> throws, and \<^verbatim>\<open>canReset\<close> is false.
\<close>

record 'a EnumerableBase =
  current :: "'a IteratorResult option"
  index :: int

definition EnumerableBase_canReset :: "'s \<Rightarrow> bool" where
  "EnumerableBase_canReset this = False"

definition EnumerableBase_reset :: "'s \<Rightarrow> error + 's" where
  "EnumerableBase_reset this = Inl NotSupported"

text \<open>\<^verbatim>\<open>ArrayEnumerable\<close>, over the array \<^verbatim>\<open>_array\<close>.\<close>

record 'a ArrayEnumerable = "'a EnumerableBase" +
  array :: "'a list"

definition new_ArrayEnumerable :: "'a list option \<Rightarrow> 'a ArrayEnumerable" where
  "new_ArrayEnumerable arr =
     \<lparr>current = None, index = - 1, array = (case arr of None \<Rightarrow> [] | Some a \<Rightarrow> a)\<rparr>"

text \<open>
  \<^verbatim>\<open>ArrayEnumerable.next()\<close>. Reading the array at a negative index gives undefined; this
  arises only from an index below -1, which no method produces.
\<close>

definition ArrayEnumerable_next :: "'a ArrayEnumerable \<Rightarrow> 'a IteratorResult \<times> 'a ArrayEnumerable" where
  "ArrayEnumerable_next this =
     (let NEXT_INDEX = index this + 1
      in if NEXT_INDEX \<ge> int (length (array this)) then
           (let result = \<lparr>result_done = True, result_value = None\<rparr>
            in (result, this\<lparr>current := Some result\<rparr>))
         else
           (let result = \<lparr>result_done = False,
                          result_value = (if 0 \<le> NEXT_INDEX then Some (array this ! nat NEXT_INDEX) else None)\<rparr>
            in (result, this\<lparr>index := NEXT_INDEX, current := Some result\<rparr>)))"

definition ArrayEnumerable_canReset :: "'a ArrayEnumerable \<Rightarrow> bool" where
  "ArrayEnumerable_canReset this = True"

definition ArrayEnumerable_reset :: "'a ArrayEnumerable \<Rightarrow> error + 'a ArrayEnumerable" where
  "ArrayEnumerable_reset this =
     (if ArrayEnumerable_canReset this then Inr (this\<lparr>index := - 1\<rparr>) else EnumerableBase_reset this)"

text \<open>
  \<^verbatim>\<open>for (let item of this)\<close> on an \<^verbatim>\<open>ArrayEnumerable\<close>, collecting the values: the loop calls
  \<^verbatim>\<open>next()\<close> until it answers done.
\<close>

function ArrayEnumerable_values :: "'a ArrayEnumerable \<Rightarrow> 'a option list \<times> 'a ArrayEnumerable" where
  "ArrayEnumerable_values this =
     (case ArrayEnumerable_next this of (result, this') \<Rightarrow>
        if result_done result then ([], this')
        else (case ArrayEnumerable_values this' of (vs, this'') \<Rightarrow> (result_value result # vs, this'')))"
  by pat_completeness auto
termination
  by (relation "measure (\<lambda>this. nat (int (length (array this)) - index this))")
    (auto simp: ArrayEnumerable_next_def Let_def split: if_splits)

declare ArrayEnumerable_values.simps [simp del]

text \<open>
  \<^verbatim>\<open>IteratorEnumerable\<close>, over any object with a \<^verbatim>\<open>next\<close> method. The iterator is given by its
  state, of a type \<open>'s\<close>, and its method \<open>it_next\<close>, which returns the new state and either
  throws, or answers with a result; a falsy answer is \<open>None\<close>.
\<close>

record ('a, 's) IteratorEnumerable = "'a EnumerableBase" +
  iterator :: 's

definition new_IteratorEnumerable :: "'s \<Rightarrow> ('a, 's) IteratorEnumerable" where
  "new_IteratorEnumerable it = \<lparr>current = None, index = - 1, iterator = it\<rparr>"

definition IteratorEnumerable_next :: "('s \<Rightarrow> (error + 'a IteratorResult option) \<times> 's)
    \<Rightarrow> ('a, 's) IteratorEnumerable \<Rightarrow> (error + 'a IteratorResult) \<times> ('a, 's) IteratorEnumerable" where
  "IteratorEnumerable_next it_next this =
     (case it_next (iterator this) of
        (Inl e, it') \<Rightarrow> (Inl e, this\<lparr>iterator := it'\<rparr>)
      | (Inr answer, it') \<Rightarrow>
          (let result = (case answer of None \<Rightarrow> \<lparr>result_done = True, result_value = None\<rparr> | Some r \<Rightarrow> r)
           in (Inr result,
               this\<lparr>iterator := it', current := Some result,
                    index := (if \<not> result_done result then index this + 1 else index this)\<rparr>)))"

text \<open>
  A generator object of the language: suspended with the state of its body, or completed.
  \<open>body s\<close> runs the body from the state \<open>s\<close> to its next \<^verbatim>\<open>yield\<close> (the value and the new
  state), to its end (\<open>None\<close>) or to an exception. A generator that has returned or thrown
  is completed, and a completed generator answers done to every \<^verbatim>\<open>next()\<close>.
\<close>

datatype 's Generator = Suspended 's | Completed

definition Generator_next :: "('s \<Rightarrow> error + ('a \<times> 's) option) \<Rightarrow> 's Generator
    \<Rightarrow> (error + 'a IteratorResult option) \<times> 's Generator" where
  "Generator_next body g =
     (case g of
        Completed \<Rightarrow> (Inr (Some \<lparr>result_done = True, result_value = None\<rparr>), Completed)
      | Suspended s \<Rightarrow>
          (case body s of
             Inl e \<Rightarrow> (Inl e, Completed)
           | Inr None \<Rightarrow> (Inr (Some \<lparr>result_done = True, result_value = None\<rparr>), Completed)
           | Inr (Some (v, s')) \<Rightarrow> (Inr (Some \<lparr>result_done = False, result_value = Some v\<rparr>), Suspended s')))"

text \<open>
  The body of \<^verbatim>\<open>rangeInner(start, count)\<close> as such a generator body, on the state of its two
  variables; a count that is not a number is \<open>None\<close>.
\<close>

definition rangeInner_body :: "int \<times> int option \<Rightarrow> error + (int \<times> (int \<times> int option)) option" where
  "rangeInner_body s =
     (case s of
        (cur, None) \<Rightarrow> Inr (Some (cur, (cur + 1, None)))
      | (cur, Some c) \<Rightarrow> if c < 1 then Inr None else Inr (Some (cur, (cur + 1, Some (c - 1)))))"

text \<open>
  An iterator that keeps signalling done: whenever it has answered done (or given a falsy
  answer), its next answer is done (or falsy) again.
\<close>

definition answers_done :: "(error + 'a IteratorResult option) \<Rightarrow> bool" where
  "answers_done a = (case a of Inl e \<Rightarrow> False | Inr None \<Rightarrow> True | Inr (Some r) \<Rightarrow> result_done r)"

definition keeps_done :: "('s \<Rightarrow> (error + 'a IteratorResult option) \<times> 's) \<Rightarrow> bool" where
  "keeps_done it_next \<longleftrightarrow> (\<forall>s. answers_done (fst (it_next s)) \<longrightarrow> answers_done (fst (it_next (snd (it_next s)))))"

text \<open>
  An iterator that does not: it counts the calls of its \<^verbatim>\<open>next\<close>, answers done to the
  first and yields 7 afterwards.
\<close>

definition resuming_next :: "nat \<Rightarrow> (error + int IteratorResult option) \<times> nat" where
  "resuming_next calls =
     (if calls = 0 then (Inr (Some \<lparr>result_done = True, result_value = None\<rparr>), Suc calls)
      else (Inr (Some \<lparr>result_done = False, result_value = Some 7\<rparr>), Suc calls))"

text \<open>
  The state of an \<^verbatim>\<open>IteratorEnumerable\<close> after \<open>n\<close> calls of its \<^verbatim>\<open>next()\<close>, whatever they answered.
\<close>

fun after_pulls :: "('s \<Rightarrow> (error + 'a IteratorResult option) \<times> 's) \<Rightarrow> nat
    \<Rightarrow> ('a, 's) IteratorEnumerable \<Rightarrow> ('a, 's) IteratorEnumerable" where
  "after_pulls it_next 0 this = this"
| "after_pulls it_next (Suc n) this = after_pulls it_next n (snd (IteratorEnumerable_next it_next this))"

section \<open>Constructing an operator\<close>

text \<open>
  The operators of the language and the built-in functions that the operators below hand
  to their callbacks, on the values of the program: \<^verbatim>\<open>==\<close>, which throws what the conversion
  of an object to a primitive throws; \<^verbatim>\<open>===\<close>, which never throws; \<^verbatim>\<open>+\<close>, which throws on a
  symbol; whether a value is a sequence for \<^verbatim>\<open>isSequence\<close> (an iterable, an array or a
  string) and which one; the conversions of \<^verbatim>\<open>cast\<close> for the type names it supports
  (\<^verbatim>\<open>JSON.parse\<close> can throw); \<^verbatim>\<open>"number" === typeof x\<close>; \<^verbatim>\<open>parseInt(toStringSafe(x).trim())\<close> when
  the flag is set and \<^verbatim>\<open>parseFloat(toStringSafe(x).trim())\<close> otherwise (the conversion of a
  symbol to a string throws); and \<^verbatim>\<open>isNaN\<close>.
\<close>

record 'a Builtins =
  JS_looseEq :: "'a \<Rightarrow> 'a \<Rightarrow> error + bool"
  JS_strictEq :: "'a \<Rightarrow> 'a \<Rightarrow> bool"
  JS_plus :: "'a \<Rightarrow> 'a \<Rightarrow> error + 'a"
  JS_asSequence :: "'a \<Rightarrow> 'a Sequence option"
  JS_convert :: "string \<Rightarrow> 'a \<Rightarrow> error + 'a"
  JS_isNumber :: "'a \<Rightarrow> bool"
  JS_parseNumber :: "bool \<Rightarrow> 'a \<Rightarrow> error + 'a"
  JS_isNaN :: "'a \<Rightarrow> bool"

text \<open>
  The selector that \<^verbatim>\<open>cast(type)\<close> builds, for the type name after
  \<^verbatim>\<open>toStringSafe(type).trim()\<close>: the empty name leaves the item as it is, a name of the
  \<^verbatim>\<open>switch\<close> converts it, any other name throws.
\<close>

definition cast_types :: "string list" where
  "cast_types = [''bool'', ''boolean'', ''float'', ''func'', ''function'', ''null'', ''number'',
                 ''object'', ''int'', ''integer'', ''string'', ''symbol'', ''undefined'']"

definition cast_selector :: "'a Builtins \<Rightarrow> string \<Rightarrow> 'a \<Rightarrow> error + 'a" where
  "cast_selector js type x =
     (if type \<noteq> [] then
        (if type \<in> set cast_types then JS_convert js type x else Inl (NotSupportedType type))
      else Inr x)"

text \<open>
  \<^verbatim>\<open>invokeForValidNumber(x, action, handleAsInt)\<close>, which the selectors of the numeric maps
  (\<^verbatim>\<open>abs\<close>, \<^verbatim>\<open>ceil\<close>, \<^verbatim>\<open>cos\<close>, \<^verbatim>\<open>sqrt\<close>, ...) call with the function of \<^verbatim>\<open>Math\<close> as the action.
\<close>

definition invokeForValidNumber :: "'a Builtins \<Rightarrow> 'a \<Rightarrow> ('a \<Rightarrow> 'a) option \<Rightarrow> bool \<Rightarrow> error + 'a" where
  "invokeForValidNumber js x action handleAsInt =
     (case (if \<not> JS_isNumber js x then JS_parseNumber js handleAsInt x else Inr x) of
        Inl e \<Rightarrow> Inl e
      | Inr x' \<Rightarrow>
          (if \<not> JS_isNaN js x' then (case action of None \<Rightarrow> Inr x' | Some f \<Rightarrow> Inr (f x'))
           else Inr x'))"

text \<open>
  The callbacks, which can throw. A predicate argument is missing (null or undefined),
  some other value that is not a function (of which \<^verbatim>\<open>toPredicateSafe\<close> keeps the
  truthiness), or a function; \<open>call_predicate predicate item\<close> is
  \<^verbatim>\<open>toPredicateSafe(predicate)(item)\<close>. The predicate that reaches \<^verbatim>\<open>_skipWhileInner\<close> and
  \<^verbatim>\<open>_takeWhileInner\<close> is the argument of the caller, or the closure \<^verbatim>\<open>() => count-- > 0\<close> of
  \<^verbatim>\<open>skip\<close> and \<^verbatim>\<open>take\<close>, which changes its variable at every call.
\<close>

datatype 'a Predicate = Predicate_missing | Predicate_value bool | Predicate_function "'a \<Rightarrow> error + bool"

fun call_predicate :: "'a Predicate \<Rightarrow> 'a \<Rightarrow> error + bool" where
  "call_predicate Predicate_missing item = Inr True"
| "call_predicate (Predicate_value RESULT) item = Inr RESULT"
| "call_predicate (Predicate_function predicate) item = predicate item"

datatype 'a WhilePredicate = Given "'a Predicate" | CountingClosure int

fun call_while :: "'a WhilePredicate \<Rightarrow> 'a \<Rightarrow> (error + bool) \<times> 'a WhilePredicate" where
  "call_while (Given predicate) item = (call_predicate predicate item, Given predicate)"
| "call_while (CountingClosure count) item = (Inr (count > 0), CountingClosure (count - 1))"

text \<open>
  An equality comparer argument is missing (or falsy), \<^verbatim>\<open>true\<close>, or a function;
  \<open>equalityComparer js comparer\<close> is \<^verbatim>\<open>toEqualityComparerSafe(comparer)\<close>. \<open>found_in\<close> is the
  loop that compares an item with the entries of an array, as \<^verbatim>\<open>comparer(item, entry)\<close>,
  until one matches or the comparer throws.
\<close>

datatype 'a EqualityComparer = Comparer_missing | Comparer_true | Comparer_function "'a \<Rightarrow> 'a \<Rightarrow> error + bool"

fun equalityComparer :: "'a Builtins \<Rightarrow> 'a EqualityComparer \<Rightarrow> ('a \<Rightarrow> 'a \<Rightarrow> error + bool)" where
  "equalityComparer js Comparer_missing = JS_looseEq js"
| "equalityComparer js Comparer_true = (\<lambda>x y. Inr (JS_strictEq js x y))"
| "equalityComparer js (Comparer_function comparer) = comparer"

fun found_in :: "('a \<Rightarrow> 'a \<Rightarrow> error + bool) \<Rightarrow> 'a \<Rightarrow> 'a list \<Rightarrow> error + bool" where
  "found_in comparer item [] = Inr False"
| "found_in comparer item (t # ts) =
     (case comparer item t of
        Inl e \<Rightarrow> Inl e
      | Inr matches \<Rightarrow> if matches then Inr True else found_in comparer item ts)"

text \<open>
  A sequence object with its state. The source sequence is any object with a \<^verbatim>\<open>next\<close>
  method, given by its state \<open>'s\<close>. \<open>Outcomes\<close> is \<^verbatim>\<open>from(seq)\<close> for an array or for an
  iterator, with the outcomes of the pulls that remain. The other objects are
  \<^verbatim>\<open>from(g)\<close> for a generator object \<open>g\<close>: \<open>Finished\<close> when the generator has returned or
  thrown, and otherwise the generator function with the values of its parameters and
  variables where it is suspended, the sequence that is its \<^verbatim>\<open>this\<close> among them. Calling
  a generator function runs none of its body, so a generator object starts with the
  arguments of the call and the initial values of the variables.

  \<^verbatim>\<open>_selectManyInner\<close> holds the sequence \<^verbatim>\<open>SEQ\<close> that its inner loop is iterating, if it is in
  that loop; \<^verbatim>\<open>_concatArrayInner\<close> is in its first loop, over \<^verbatim>\<open>this\<close>, or in its second, over
  the sequences that remain; \<^verbatim>\<open>_intersperseInner\<close> holds what it still has to yield for the
  item at hand; \<^verbatim>\<open>_chunkInner\<close> holds the array that \<^verbatim>\<open>getNextChunkArray\<close> is filling, which
  is empty between two pulls; \<^verbatim>\<open>_cloneInner\<close> is in \<^verbatim>\<open>this.toArray()\<close>, with the array filled so
  far, or in its loop, with \<^verbatim>\<open>ITEMS\<close>; \<^verbatim>\<open>zipInner\<close> holds the value of \<^verbatim>\<open>ITEM_THIS\<close> while it pulls
  the second sequence.
\<close>

datatype ('a, 's) EnumerableObject =
    Source 's
  | Outcomes "'a IEnumerable"
  | Finished
  | SelectManyInner "('a \<Rightarrow> error + 'a Sequence) option" "('a, 's) EnumerableObject option"
      "('a, 's) EnumerableObject"
  | WhereInner "'a Predicate" "('a, 's) EnumerableObject"
  | DistinctByInner "'a \<Rightarrow> error + 'a" "'a \<Rightarrow> 'a \<Rightarrow> error + bool" "'a list" "('a, 's) EnumerableObject"
  | ExceptInner "'a list" "'a \<Rightarrow> 'a \<Rightarrow> error + bool" "('a, 's) EnumerableObject"
  | IntersectInner "'a list" "'a \<Rightarrow> 'a \<Rightarrow> error + bool" "('a, 's) EnumerableObject"
  | SkipWhileInner "'a WhilePredicate" bool "('a, 's) EnumerableObject"
  | TakeWhileInner "'a WhilePredicate" "('a, 's) EnumerableObject"
  | ConcatArrayInner_this "'a Sequence list" "('a, 's) EnumerableObject"
  | ConcatArrayInner_sequences "('a, 's) EnumerableObject option" "'a Sequence list"
  | IntersperseInner "'a list" bool "'a list" "('a, 's) EnumerableObject"
  | ChunkInner int "'a list" "('a, 's) EnumerableObject"
  | CloneInner_toArray "int option" "('a \<Rightarrow> error + 'a) option" "'a list" "('a, 's) EnumerableObject"
  | CloneInner "int option" "('a \<Rightarrow> error + 'a) option" "'a list"
  | ZipInner "('a, 's) EnumerableObject" "'a \<Rightarrow> 'a \<Rightarrow> int \<Rightarrow> error + 'a" int "'a option"
      "('a, 's) EnumerableObject"
  | PipeInner "'a EachAction option" int "('a, 's) EnumerableObject"

text \<open>
  The state of the source sequence under a chain of such objects, each the \<^verbatim>\<open>this\<close> of the
  one above.
\<close>

fun source_of :: "('a, 's) EnumerableObject \<Rightarrow> 's option" where
  "source_of (Source s) = Some s"
| "source_of (Outcomes outcomes) = None"
| "source_of Finished = None"
| "source_of (SelectManyInner selector SEQ this) = source_of this"
| "source_of (WhereInner predicate this) = source_of this"
| "source_of (DistinctByInner selector comparer TEMP this) = source_of this"
| "source_of (ExceptInner second comparer this) = source_of this"
| "source_of (IntersectInner second comparer this) = source_of this"
| "source_of (SkipWhileInner predicate returnItem this) = source_of this"
| "source_of (TakeWhileInner predicate this) = source_of this"
| "source_of (ConcatArrayInner_this sequences this) = source_of this"
| "source_of (ConcatArrayInner_sequences SEQ sequences) = None"
| "source_of (IntersperseInner separators isFirst pending this) = source_of this"
| "source_of (ChunkInner chunk_size ARR this) = source_of this"
| "source_of (CloneInner_toArray count itemSelector ARR this) = source_of this"
| "source_of (CloneInner count itemSelector ITEMS) = None"
| "source_of (ZipInner second resultSelector i ITEM_THIS this) = source_of this"
| "source_of (PipeInner action i this) = source_of this"

text \<open>
  The methods of \<^verbatim>\<open>EnumerableBase\<close> that call a generator function and wrap the generator
  object with \<^verbatim>\<open>from\<close>, each as its body reads. \<^verbatim>\<open>from\<close> stores the object in an
  \<^verbatim>\<open>IteratorEnumerable\<close> and calls nothing; the fields \<^verbatim>\<open>_current\<close> and \<^verbatim>\<open>_index\<close> of that
  wrapper, which no operator reads, are left out.
\<close>

definition EnumerableBase_selectMany :: "('a \<Rightarrow> error + 'a Sequence) option
    \<Rightarrow> ('a, 's) EnumerableObject \<Rightarrow> ('a, 's) EnumerableObject" where
  "EnumerableBase_selectMany selector this = SelectManyInner selector None this"

definition EnumerableBase_select :: "('a \<Rightarrow> error + 'a) option
    \<Rightarrow> ('a, 's) EnumerableObject \<Rightarrow> ('a, 's) EnumerableObject" where
  "EnumerableBase_select selector this =
     (let selector' = (case selector of None \<Rightarrow> (\<lambda>x. Inr x) | Some f \<Rightarrow> f)
      in EnumerableBase_selectMany
           (Some (\<lambda>x. case selector' x of Inl e \<Rightarrow> Inl e | Inr y \<Rightarrow> Inr (ArrayLike [y]))) this)"

definition EnumerableBase_where :: "'a Predicate
    \<Rightarrow> ('a, 's) EnumerableObject \<Rightarrow> ('a, 's) EnumerableObject" where
  "EnumerableBase_where predicate this = WhereInner predicate this"

definition EnumerableBase_distinctBy :: "'a Builtins \<Rightarrow> ('a \<Rightarrow> error + 'a) option \<Rightarrow> 'a EqualityComparer
    \<Rightarrow> ('a, 's) EnumerableObject \<Rightarrow> ('a, 's) EnumerableObject" where
  "EnumerableBase_distinctBy js selector comparer this =
     (let selector' = (case selector of None \<Rightarrow> (\<lambda>i. Inr i) | Some f \<Rightarrow> f);
          comparer' = equalityComparer js comparer
      in DistinctByInner selector' comparer' [] this)"

definition EnumerableBase_distinct :: "'a Builtins \<Rightarrow> 'a EqualityComparer
    \<Rightarrow> ('a, 's) EnumerableObject \<Rightarrow> ('a, 's) EnumerableObject" where
  "EnumerableBase_distinct js comparer this =
     EnumerableBase_distinctBy js (Some (\<lambda>x. Inr x)) comparer this"

definition EnumerableBase_concatArray :: "'a Sequence list
    \<Rightarrow> ('a, 's) EnumerableObject \<Rightarrow> ('a, 's) EnumerableObject" where
  "EnumerableBase_concatArray sequences this = ConcatArrayInner_this sequences this"

definition EnumerableBase_concat :: "'a Sequence list
    \<Rightarrow> ('a, 's) EnumerableObject \<Rightarrow> ('a, 's) EnumerableObject" where
  "EnumerableBase_concat args this = EnumerableBase_concatArray args this"

definition EnumerableBase_union :: "'a Builtins \<Rightarrow> 'a Sequence \<Rightarrow> 'a EqualityComparer
    \<Rightarrow> ('a, 's) EnumerableObject \<Rightarrow> ('a, 's) EnumerableObject" where
  "EnumerableBase_union js second comparer this =
     EnumerableBase_distinct js comparer (EnumerableBase_concat [second] this)"

definition EnumerableBase_skipWhile :: "'a WhilePredicate
    \<Rightarrow> ('a, 's) EnumerableObject \<Rightarrow> ('a, 's) EnumerableObject" where
  "EnumerableBase_skipWhile predicate this = SkipWhileInner predicate False this"

definition EnumerableBase_skip :: "int option
    \<Rightarrow> ('a, 's) EnumerableObject \<Rightarrow> ('a, 's) EnumerableObject" where
  "EnumerableBase_skip count this = EnumerableBase_skipWhile (CountingClosure (countOrOne count)) this"

definition EnumerableBase_takeWhile :: "'a WhilePredicate
    \<Rightarrow> ('a, 's) EnumerableObject \<Rightarrow> ('a, 's) EnumerableObject" where
  "EnumerableBase_takeWhile predicate this = TakeWhileInner predicate this"

definition EnumerableBase_take :: "int option
    \<Rightarrow> ('a, 's) EnumerableObject \<Rightarrow> ('a, 's) EnumerableObject" where
  "EnumerableBase_take count this = EnumerableBase_takeWhile (CountingClosure (countOrOne count)) this"

definition EnumerableBase_intersperse :: "'a list
    \<Rightarrow> ('a, 's) EnumerableObject \<Rightarrow> ('a, 's) EnumerableObject" where
  "EnumerableBase_intersperse separators this = IntersperseInner separators True [] this"

text \<open>
  \<^verbatim>\<open>chunk(size)\<close> and \<^verbatim>\<open>clone(count, itemSelector)\<close> parse their number first; only \<^verbatim>\<open>chunk\<close>
  replaces one that is not a number, by 1.
\<close>

definition EnumerableBase_chunk :: "int option
    \<Rightarrow> ('a, 's) EnumerableObject \<Rightarrow> ('a, 's) EnumerableObject" where
  "EnumerableBase_chunk chunk_size this = ChunkInner (countOrOne chunk_size) [] this"

definition EnumerableBase_clone :: "int option \<Rightarrow> ('a \<Rightarrow> error + 'a) option
    \<Rightarrow> ('a, 's) EnumerableObject \<Rightarrow> ('a, 's) EnumerableObject" where
  "EnumerableBase_clone count itemSelector this = CloneInner_toArray count itemSelector [] this"

definition EnumerableBase_flatten :: "'a Builtins
    \<Rightarrow> ('a, 's) EnumerableObject \<Rightarrow> ('a, 's) EnumerableObject" where
  "EnumerableBase_flatten js this =
     EnumerableBase_selectMany
       (Some (\<lambda>x. Inr (case JS_asSequence js x of None \<Rightarrow> ArrayLike [x] | Some s \<Rightarrow> s))) this"

definition EnumerableBase_zip :: "'a Builtins \<Rightarrow> 'a Sequence \<Rightarrow> ('a \<Rightarrow> 'a \<Rightarrow> int \<Rightarrow> error + 'a) option
    \<Rightarrow> ('a, 's) EnumerableObject \<Rightarrow> ('a, 's) EnumerableObject" where
  "EnumerableBase_zip js second resultSelector this =
     (let resultSelector' = (case resultSelector of None \<Rightarrow> (\<lambda>x y i. JS_plus js x y) | Some f \<Rightarrow> f)
      in ZipInner (Outcomes (Enumerable_from second)) resultSelector' (- 1) None this)"

definition EnumerableBase_pipe :: "'a EachAction option
    \<Rightarrow> ('a, 's) EnumerableObject \<Rightarrow> ('a, 's) EnumerableObject" where
  "EnumerableBase_pipe action this = PipeInner action (- 1) this"

definition EnumerableBase_cast :: "'a Builtins \<Rightarrow> string
    \<Rightarrow> ('a, 's) EnumerableObject \<Rightarrow> ('a, 's) EnumerableObject" where
  "EnumerableBase_cast js type this = EnumerableBase_select (Some (cast_selector js type)) this"

text \<open>
  A numeric map, \<^verbatim>\<open>abs(handleAsInt)\<close> for one: \<open>action\<close> is its function of \<^verbatim>\<open>Math\<close>.
\<close>

definition EnumerableBase_abs :: "'a Builtins \<Rightarrow> ('a \<Rightarrow> 'a) \<Rightarrow> bool
    \<Rightarrow> ('a, 's) EnumerableObject \<Rightarrow> ('a, 's) EnumerableObject" where
  "EnumerableBase_abs js action handleAsInt this =
     EnumerableBase_select (Some (\<lambda>x. invokeForValidNumber js x (Some action) handleAsInt)) this"

text \<open>
  One round of \<^verbatim>\<open>next()\<close> on a sequence object. \<open>source_next\<close> is the \<^verbatim>\<open>next\<close> of the source
  sequence, and \<open>as_value\<close> gives the value of the program that a sequence object is, for
  the operators whose elements are sequences. A generator runs from where it is suspended
  until it answers: with the value of its next \<^verbatim>\<open>yield\<close>, with done when it returns, or with
  the exception that leaves it; in the last two cases it is finished, and answers done
  from then on. On the way its loops go round, and a round either answers or leaves the
  generator at the head of a loop again (\<open>Again\<close>), with the state it has there. A
  \<^verbatim>\<open>for (let item of seq)\<close> loop calls \<^verbatim>\<open>seq.next()\<close> once per round, and the objects have no
  \<^verbatim>\<open>return\<close> method, so leaving a loop calls nothing. While the \<^verbatim>\<open>next()\<close> of the sequence that
  a loop pulls goes round, the loop waits.
\<close>

datatype ('a, 's) Round =
    Answer "'a pull option" "('a, 's) EnumerableObject"
  | Again "('a, 's) EnumerableObject"

fun Enumerable_round :: "('s \<Rightarrow> 'a pull option \<times> 's) \<Rightarrow> (('a, 's) EnumerableObject \<Rightarrow> 'a)
    \<Rightarrow> ('a, 's) EnumerableObject \<Rightarrow> ('a, 's) Round" where
  "Enumerable_round source_next as_value (Source s) =
     (case source_next s of (r, s') \<Rightarrow> Answer r (Source s'))"
| "Enumerable_round source_next as_value (Outcomes []) = Answer None (Outcomes [])"
| "Enumerable_round source_next as_value (Outcomes (outcome # rest)) = Answer (Some outcome) (Outcomes rest)"
| "Enumerable_round source_next as_value Finished = Answer None Finished"
| "Enumerable_round source_next as_value (SelectManyInner selector (Some SEQ) this) =
     (case Enumerable_round source_next as_value SEQ of
        Again SEQ' \<Rightarrow> Again (SelectManyInner selector (Some SEQ') this)
      | Answer None SEQ' \<Rightarrow> Again (SelectManyInner selector None this)
      | Answer (Some (Throws e)) SEQ' \<Rightarrow> Answer (Some (Throws e)) Finished
      | Answer (Some (Yields item)) SEQ' \<Rightarrow>
          Answer (Some (Yields item)) (SelectManyInner selector (Some SEQ') this))"
| "Enumerable_round source_next as_value (SelectManyInner selector None this) =
     (case Enumerable_round source_next as_value this of
        Again this' \<Rightarrow> Again (SelectManyInner selector None this')
      | Answer None this' \<Rightarrow> Answer None Finished
      | Answer (Some (Throws e)) this' \<Rightarrow> Answer (Some (Throws e)) Finished
      | Answer (Some (Yields s)) this' \<Rightarrow>
          (case (case selector of None \<Rightarrow> (\<lambda>x. Inr (ArrayLike [x])) | Some f \<Rightarrow> f) s of
             Inl e \<Rightarrow> Answer (Some (Throws e)) Finished
           | Inr SEQ \<Rightarrow> Again (SelectManyInner selector (Some (Outcomes (Enumerable_from SEQ))) this')))"
| "Enumerable_round source_next as_value (WhereInner predicate this) =
     (case Enumerable_round source_next as_value this of
        Again this' \<Rightarrow> Again (WhereInner predicate this')
      | Answer None this' \<Rightarrow> Answer None Finished
      | Answer (Some (Throws e)) this' \<Rightarrow> Answer (Some (Throws e)) Finished
      | Answer (Some (Yields item)) this' \<Rightarrow>
          (case call_predicate predicate item of
             Inl e \<Rightarrow> Answer (Some (Throws e)) Finished
           | Inr matches \<Rightarrow>
               if matches then Answer (Some (Yields item)) (WhereInner predicate this')
               else Again (WhereInner predicate this')))"
| "Enumerable_round source_next as_value (DistinctByInner selector comparer TEMP this) =
     (case Enumerable_round source_next as_value this of
        Again this' \<Rightarrow> Again (DistinctByInner selector comparer TEMP this')
      | Answer None this' \<Rightarrow> Answer None Finished
      | Answer (Some (Throws e)) this' \<Rightarrow> Answer (Some (Throws e)) Finished
      | Answer (Some (Yields item)) this' \<Rightarrow>
          (case selector item of
             Inl e \<Rightarrow> Answer (Some (Throws e)) Finished
           | Inr KEY_ITEM \<Rightarrow>
               (case found_in comparer KEY_ITEM TEMP of
                  Inl e \<Rightarrow> Answer (Some (Throws e)) Finished
                | Inr found \<Rightarrow>
                    if \<not> found
                    then Answer (Some (Yields item)) (DistinctByInner selector comparer (TEMP @ [KEY_ITEM]) this')
                    else Again (DistinctByInner selector comparer TEMP this'))))"
| "Enumerable_round source_next as_value (ExceptInner second comparer this) =
     (case Enumerable_round source_next as_value this of
        Again this' \<Rightarrow> Again (ExceptInner second comparer this')
      | Answer None this' \<Rightarrow> Answer None Finished
      | Answer (Some (Throws e)) this' \<Rightarrow> Answer (Some (Throws e)) Finished
      | Answer (Some (Yields item)) this' \<Rightarrow>
          (case found_in comparer item second of
             Inl e \<Rightarrow> Answer (Some (Throws e)) Finished
           | Inr found \<Rightarrow>
               if \<not> found then Answer (Some (Yields item)) (ExceptInner second comparer this')
               else Again (ExceptInner second comparer this')))"
| "Enumerable_round source_next as_value (IntersectInner second comparer this) =
     (case Enumerable_round source_next as_value this of
        Again this' \<Rightarrow> Again (IntersectInner second comparer this')
      | Answer None this' \<Rightarrow> Answer None Finished
      | Answer (Some (Throws e)) this' \<Rightarrow> Answer (Some (Throws e)) Finished
      | Answer (Some (Yields item)) this' \<Rightarrow>
          (case found_in comparer item second of
             Inl e \<Rightarrow> Answer (Some (Throws e)) Finished
           | Inr found \<Rightarrow>
               if found then Answer (Some (Yields item)) (IntersectInner second comparer this')
               else Again (IntersectInner second comparer this')))"
| "Enumerable_round source_next as_value (SkipWhileInner predicate returnItem this) =
     (case Enumerable_round source_next as_value this of
        Again this' \<Rightarrow> Again (SkipWhileInner predicate returnItem this')
      | Answer None this' \<Rightarrow> Answer None Finished
      | Answer (Some (Throws e)) this' \<Rightarrow> Answer (Some (Throws e)) Finished
      | Answer (Some (Yields item)) this' \<Rightarrow>
          if \<not> returnItem then
            (case call_while predicate item of
               (Inl e, predicate') \<Rightarrow> Answer (Some (Throws e)) Finished
             | (Inr holds, predicate') \<Rightarrow>
                 if \<not> holds then Answer (Some (Yields item)) (SkipWhileInner predicate' True this')
                 else Again (SkipWhileInner predicate' False this'))
          else Answer (Some (Yields item)) (SkipWhileInner predicate True this'))"
| "Enumerable_round source_next as_value (TakeWhileInner predicate this) =
     (case Enumerable_round source_next as_value this of
        Again this' \<Rightarrow> Again (TakeWhileInner predicate this')
      | Answer None this' \<Rightarrow> Answer None Finished
      | Answer (Some (Throws e)) this' \<Rightarrow> Answer (Some (Throws e)) Finished
      | Answer (Some (Yields item)) this' \<Rightarrow>
          (case call_while predicate item of
             (Inl e, predicate') \<Rightarrow> Answer (Some (Throws e)) Finished
           | (Inr holds, predicate') \<Rightarrow>
               if holds then Answer (Some (Yields item)) (TakeWhileInner predicate' this')
               else Answer None Finished))"
| "Enumerable_round source_next as_value (ConcatArrayInner_this sequences this) =
     (case Enumerable_round source_next as_value this of
        Again this' \<Rightarrow> Again (ConcatArrayInner_this sequences this')
      | Answer None this' \<Rightarrow> Again (ConcatArrayInner_sequences None sequences)
      | Answer (Some (Throws e)) this' \<Rightarrow> Answer (Some (Throws e)) Finished
      | Answer (Some (Yields item)) this' \<Rightarrow> Answer (Some (Yields item)) (ConcatArrayInner_this sequences this'))"
| "Enumerable_round source_next as_value (ConcatArrayInner_sequences (Some SEQ) sequences) =
     (case Enumerable_round source_next as_value SEQ of
        Again SEQ' \<Rightarrow> Again (ConcatArrayInner_sequences (Some SEQ') sequences)
      | Answer None SEQ' \<Rightarrow> Again (ConcatArrayInner_sequences None sequences)
      | Answer (Some (Throws e)) SEQ' \<Rightarrow> Answer (Some (Throws e)) Finished
      | Answer (Some (Yields item)) SEQ' \<Rightarrow>
          Answer (Some (Yields item)) (ConcatArrayInner_sequences (Some SEQ') sequences))"
| "Enumerable_round source_next as_value (ConcatArrayInner_sequences None []) = Answer None Finished"
| "Enumerable_round source_next as_value (ConcatArrayInner_sequences None (SEQ # sequences)) =
     Again (ConcatArrayInner_sequences (Some (Outcomes (Enumerable_from SEQ))) sequences)"
| "Enumerable_round source_next as_value (IntersperseInner separators isFirst (v # pending) this) =
     Answer (Some (Yields v)) (IntersperseInner separators isFirst pending this)"
| "Enumerable_round source_next as_value (IntersperseInner separators isFirst [] this) =
     (case Enumerable_round source_next as_value this of
        Again this' \<Rightarrow> Again (IntersperseInner separators isFirst [] this')
      | Answer None this' \<Rightarrow> Answer None Finished
      | Answer (Some (Throws e)) this' \<Rightarrow> Answer (Some (Throws e)) Finished
      | Answer (Some (Yields item)) this' \<Rightarrow>
          if \<not> isFirst then Again (IntersperseInner separators False (separators @ [item]) this')
          else Answer (Some (Yields item)) (IntersperseInner separators False [] this'))"
| "Enumerable_round source_next as_value (ChunkInner chunk_size ARR this) =
     (case Enumerable_round source_next as_value this of
        Again this' \<Rightarrow> Again (ChunkInner chunk_size ARR this')
      | Answer None this' \<Rightarrow>
          if length ARR > 0
          then Answer (Some (Yields (as_value (Outcomes (map Yields ARR))))) (ChunkInner chunk_size [] this')
          else Answer None Finished
      | Answer (Some (Throws e)) this' \<Rightarrow> Answer (Some (Throws e)) Finished
      | Answer (Some (Yields item)) this' \<Rightarrow>
          if int (length (ARR @ [item])) \<ge> chunk_size
          then Answer (Some (Yields (as_value (Outcomes (map Yields (ARR @ [item]))))))
                 (ChunkInner chunk_size [] this')
          else Again (ChunkInner chunk_size (ARR @ [item]) this'))"
| "Enumerable_round source_next as_value (CloneInner_toArray count itemSelector ARR this) =
     (case Enumerable_round source_next as_value this of
        Again this' \<Rightarrow> Again (CloneInner_toArray count itemSelector ARR this')
      | Answer None this' \<Rightarrow> Again (CloneInner count itemSelector ARR)
      | Answer (Some (Throws e)) this' \<Rightarrow> Answer (Some (Throws e)) Finished
      | Answer (Some (Yields i)) this' \<Rightarrow> Again (CloneInner_toArray count itemSelector (ARR @ [i]) this'))"
| "Enumerable_round source_next as_value (CloneInner count itemSelector ITEMS) =
     (if (case count of None \<Rightarrow> False | Some c \<Rightarrow> c < 1) then Answer None Finished
      else Answer (Some (Yields (as_value
                    (case itemSelector of
                       None \<Rightarrow> Outcomes (map Yields ITEMS)
                     | Some f \<Rightarrow> EnumerableBase_select (Some f) (Outcomes (map Yields ITEMS))))))
             (CloneInner (map_option (\<lambda>c. c - 1) count) itemSelector ITEMS))"
| "Enumerable_round source_next as_value (ZipInner second resultSelector i None this) =
     (case Enumerable_round source_next as_value this of
        Again this' \<Rightarrow> Again (ZipInner second resultSelector i None this')
      | Answer None this' \<Rightarrow> Answer None Finished
      | Answer (Some (Throws e)) this' \<Rightarrow> Answer (Some (Throws e)) Finished
      | Answer (Some (Yields x)) this' \<Rightarrow> Again (ZipInner second resultSelector i (Some x) this'))"
| "Enumerable_round source_next as_value (ZipInner second resultSelector i (Some x) this) =
     (case Enumerable_round source_next as_value second of
        Again second' \<Rightarrow> Again (ZipInner second' resultSelector i (Some x) this)
      | Answer None second' \<Rightarrow> Answer None Finished
      | Answer (Some (Throws e)) second' \<Rightarrow> Answer (Some (Throws e)) Finished
      | Answer (Some (Yields y)) second' \<Rightarrow>
          (case resultSelector x y (i + 1) of
             Inl e \<Rightarrow> Answer (Some (Throws e)) Finished
           | Inr v \<Rightarrow> Answer (Some (Yields v)) (ZipInner second' resultSelector (i + 1) None this)))"
| "Enumerable_round source_next as_value (PipeInner action i this) =
     (case Enumerable_round source_next as_value this of
        Again this' \<Rightarrow> Again (PipeInner action i this')
      | Answer None this' \<Rightarrow> Answer None Finished
      | Answer (Some (Throws e)) this' \<Rightarrow> Answer (Some (Throws e)) Finished
      | Answer (Some (Yields item)) this' \<Rightarrow>
          (case (case action of None \<Rightarrow> None | Some f \<Rightarrow> f item (i + 1)) of
             Some e \<Rightarrow> Answer (Some (Throws e)) Finished
           | None \<Rightarrow> Answer (Some (Yields item)) (PipeInner action (i + 1) this')))"

text \<open>
  One call of \<^verbatim>\<open>next()\<close>: the rounds until one answers, with the answer (\<open>None\<close> for done,
  an element, or the exception that leaves the call) and the object afterwards. A call
  whose loops go round for ever never answers: the result is then \<open>None\<close>.
\<close>

partial_function (option) Enumerable_next :: "('s \<Rightarrow> 'a pull option \<times> 's) \<Rightarrow> (('a, 's) EnumerableObject \<Rightarrow> 'a)
    \<Rightarrow> ('a, 's) EnumerableObject \<Rightarrow> ('a pull option \<times> ('a, 's) EnumerableObject) option" where
  "Enumerable_next source_next as_value seq =
     (case Enumerable_round source_next as_value seq of
        Answer r seq' \<Rightarrow> Some (r, seq')
      | Again seq' \<Rightarrow> Enumerable_next source_next as_value seq')"

text \<open>
  \<^verbatim>\<open>toArray()\<close> on a sequence object: the loop pushes every item until the sequence signals
  done; what a pull throws leaves it.
\<close>

partial_function (option) EnumerableBase_toArray :: "('s \<Rightarrow> 'a pull option \<times> 's) \<Rightarrow> (('a, 's) EnumerableObject \<Rightarrow> 'a)
    \<Rightarrow> 'a list \<Rightarrow> ('a, 's) EnumerableObject \<Rightarrow> (error + 'a list) option" where
  "EnumerableBase_toArray source_next as_value ARR this =
     Option.bind (Enumerable_next source_next as_value this) (\<lambda>(r, this').
       case r of
         None \<Rightarrow> Some (Inr ARR)
       | Some (Throws e) \<Rightarrow> Some (Inl e)
       | Some (Yields i) \<Rightarrow> EnumerableBase_toArray source_next as_value (ARR @ [i]) this')"

text \<open>
  \<^verbatim>\<open>except\<close> and \<^verbatim>\<open>intersect\<close> evaluate \<^verbatim>\<open>from(second).distinct().toArray()\<close> as the first
  argument of the generator call, so before the call: the second sequence is drained
  there, and what a pull of it or the comparison \<^verbatim>\<open>==\<close> of two of its elements throws
  leaves the method.
\<close>

definition EnumerableBase_except :: "('s \<Rightarrow> 'a pull option \<times> 's) \<Rightarrow> (('a, 's) EnumerableObject \<Rightarrow> 'a)
    \<Rightarrow> 'a Builtins \<Rightarrow> 'a Sequence \<Rightarrow> 'a EqualityComparer
    \<Rightarrow> ('a, 's) EnumerableObject \<Rightarrow> (error + ('a, 's) EnumerableObject) option" where
  "EnumerableBase_except source_next as_value js second comparer this =
     Option.bind
       (EnumerableBase_toArray source_next as_value []
          (EnumerableBase_distinct js Comparer_missing (Outcomes (Enumerable_from second))))
       (\<lambda>r. case r of
               Inl e \<Rightarrow> Some (Inl e)
             | Inr arr \<Rightarrow> Some (Inr (ExceptInner arr (equalityComparer js comparer) this)))"

definition EnumerableBase_intersect :: "('s \<Rightarrow> 'a pull option \<times> 's) \<Rightarrow> (('a, 's) EnumerableObject \<Rightarrow> 'a)
    \<Rightarrow> 'a Builtins \<Rightarrow> 'a Sequence \<Rightarrow> 'a EqualityComparer
    \<Rightarrow> ('a, 's) EnumerableObject \<Rightarrow> (error + ('a, 's) EnumerableObject) option" where
  "EnumerableBase_intersect source_next as_value js second comparer this =
     Option.bind
       (EnumerableBase_toArray source_next as_value []
          (EnumerableBase_distinct js Comparer_missing (Outcomes (Enumerable_from second))))
       (\<lambda>r. case r of
               Inl e \<Rightarrow> Some (Inl e)
             | Inr arr \<Rightarrow> Some (Inr (IntersectInner arr (equalityComparer js comparer) this)))"

text \<open>
  A call of one of these operators, and its outcome: the exception that leaves the
  method, or the sequence it returns; \<open>None\<close> if the call never returns.
\<close>

datatype 'a OperatorCall =
    Select "('a \<Rightarrow> error + 'a) option"
  | Where "'a Predicate"
  | SelectMany "('a \<Rightarrow> error + 'a Sequence) option"
  | Distinct "'a EqualityComparer"
  | Except "'a Sequence" "'a EqualityComparer"
  | Intersect "'a Sequence" "'a EqualityComparer"
  | Union "'a Sequence" "'a EqualityComparer"
  | Skip "int option"
  | Take "int option"
  | Concat "'a Sequence list"
  | Intersperse "'a list"
  | Chunk "int option"
  | Clone "int option" "('a \<Rightarrow> error + 'a) option"
  | Flatten
  | Zip "'a Sequence" "('a \<Rightarrow> 'a \<Rightarrow> int \<Rightarrow> error + 'a) option"
  | Pipe "'a EachAction option"
  | Cast string
  | Abs "'a \<Rightarrow> 'a" bool

fun construct :: "('s \<Rightarrow> 'a pull option \<times> 's) \<Rightarrow> (('a, 's) EnumerableObject \<Rightarrow> 'a) \<Rightarrow> 'a Builtins
    \<Rightarrow> 'a OperatorCall \<Rightarrow> ('a, 's) EnumerableObject \<Rightarrow> (error + ('a, 's) EnumerableObject) option" where
  "construct source_next as_value js (Select selector) this = Some (Inr (EnumerableBase_select selector this))"
| "construct source_next as_value js (Where predicate) this = Some (Inr (EnumerableBase_where predicate this))"
| "construct source_next as_value js (SelectMany selector) this =
     Some (Inr (EnumerableBase_selectMany selector this))"
| "construct source_next as_value js (Distinct comparer) this =
     Some (Inr (EnumerableBase_distinct js comparer this))"
| "construct source_next as_value js (Except second comparer) this =
     EnumerableBase_except source_next as_value js second comparer this"
| "construct source_next as_value js (Intersect second comparer) this =
     EnumerableBase_intersect source_next as_value js second comparer this"
| "construct source_next as_value js (Union second comparer) this =
     Some (Inr (EnumerableBase_union js second comparer this))"
| "construct source_next as_value js (Skip count) this = Some (Inr (EnumerableBase_skip count this))"
| "construct source_next as_value js (Take count) this = Some (Inr (EnumerableBase_take count this))"
| "construct source_next as_value js (Concat args) this = Some (Inr (EnumerableBase_concat args this))"
| "construct source_next as_value js (Intersperse separators) this =
     Some (Inr (EnumerableBase_intersperse separators this))"
| "construct source_next as_value js (Chunk chunk_size) this = Some (Inr (EnumerableBase_chunk chunk_size this))"
| "construct source_next as_value js (Clone count itemSelector) this =
     Some (Inr (EnumerableBase_clone count itemSelector this))"
| "construct source_next as_value js Flatten this = Some (Inr (EnumerableBase_flatten js this))"
| "construct source_next as_value js (Zip second resultSelector) this =
     Some (Inr (EnumerableBase_zip js second resultSelector this))"
| "construct source_next as_value js (Pipe action) this = Some (Inr (EnumerableBase_pipe action this))"
| "construct source_next as_value js (Cast type) this = Some (Inr (EnumerableBase_cast js type this))"
| "construct source_next as_value js (Abs action handleAsInt) this =
     Some (Inr (EnumerableBase_abs js action handleAsInt this))"

text \<open>The sequence that the method drains while it runs, if it drains one.\<close>

fun drained_by :: "'a OperatorCall \<Rightarrow> 'a Sequence option" where
  "drained_by (Except second comparer) = Some second"
| "drained_by (Intersect second comparer) = Some second"
| "drained_by call = None"

text \<open>
  The built-in functions on integers, for the examples, with a source sequence that is
  the list of the outcomes of its pulls, and sequences as elements left out (they are
  all the value 0).
\<close>

definition int_builtins :: "int Builtins" where
  "int_builtins =
     \<lparr>JS_looseEq = (\<lambda>x y. Inr (x = y)), JS_strictEq = (=), JS_plus = (\<lambda>x y. Inr (x + y)),
      JS_asSequence = (\<lambda>x. None), JS_convert = (\<lambda>type x. Inr x), JS_isNumber = (\<lambda>x. True),
      JS_parseNumber = (\<lambda>handleAsInt x. Inr x), JS_isNaN = (\<lambda>x. False)\<rparr>"

fun outcomes_next :: "'a IEnumerable \<Rightarrow> 'a pull option \<times> 'a IEnumerable" where
  "outcomes_next [] = (None, [])"
| "outcomes_next (outcome # rest) = (Some outcome, rest)"

section \<open>Theorems\<close>

lemma toArray_map_Yields: "toArray (map Yields xs) = Inr xs"
  by (induction xs) auto

lemma zipInner_Yields:
  "zipInner f i (map Yields xs) (map Yields ys) =
     map (\<lambda>k. Yields (f (xs ! k) (ys ! k) (i + 1 + int k))) [0..<min (length xs) (length ys)]"
proof (induction xs arbitrary: ys i)
  case Nil
  then show ?case by simp
next
  case (Cons x xs)
  show ?case
  proof (cases ys)
    case Nil
    then show ?thesis by simp
  next
    case (Cons y ys')
    then show ?thesis
      using Cons.IH [of "i + 1" ys']
      by (simp add: map_upt_Suc add.assoc del: upt_Suc)
  qed
qed

lemma zipInner_this_exhausted:
  "zipInner f i (map Yields (map fst ps)) (map Yields (map snd ps) @ rest) =
     map (\<lambda>k. Yields (f (fst (ps ! k)) (snd (ps ! k)) (i + 1 + int k))) [0..<length ps]"
proof (induction ps arbitrary: i)
  case Nil
  then show ?case by simp
next
  case (Cons p ps)
  then show ?case
    using Cons.IH [of "i + 1"] by (simp add: map_upt_Suc add.assoc del: upt_Suc)
qed

lemma zipInner_second_exhausted:
  "zipInner f i (map Yields (map fst ps) @ Yields x # rest) (map Yields (map snd ps)) =
     map (\<lambda>k. Yields (f (fst (ps ! k)) (snd (ps ! k)) (i + 1 + int k))) [0..<length ps]"
proof (induction ps arbitrary: i)
  case Nil
  then show ?case by simp
next
  case (Cons p ps)
  then show ?case
    using Cons.IH [of "i + 1"] by (simp add: map_upt_Suc add.assoc del: upt_Suc)
qed

text \<open>
  C7. Zipping two finite sequences yields, for every position \<open>k\<close> below the length of
  the shorter one, the combiner applied to the two \<open>k\<close>-th elements and to \<open>k\<close> itself,
  and nothing else. The pulls alternate, \<^verbatim>\<open>this\<close> first: once \<^verbatim>\<open>this\<close> is exhausted the
  second sequence is not pulled again (whatever \<open>rest\<close> it would still deliver, even a
  failure, is never seen), and once the second is exhausted after one more element of
  \<^verbatim>\<open>this\<close>, the rest of \<^verbatim>\<open>this\<close> is not pulled either. Zipping [1,2,3] with [1,2] by the
  default combiner \<^verbatim>\<open>x + y\<close> gives [2,4].
\<close>

theorem zip_lock_step_shorter:
  "toArray (Enumerable_zip js_plus (ArrayLike ys) (Some f) (Enumerable_from (ArrayLike xs))) =
     Inr (map (\<lambda>k. f (xs ! k) (ys ! k) (int k)) [0..<min (length xs) (length ys)])
   \<and> zipInner f (- 1) (map Yields (map fst ps)) (map Yields (map snd ps) @ rest2) =
     map (\<lambda>k. Yields (f (fst (ps ! k)) (snd (ps ! k)) (int k))) [0..<length ps]
   \<and> zipInner f (- 1) (map Yields (map fst ps) @ Yields x # rest1) (map Yields (map snd ps)) =
     map (\<lambda>k. Yields (f (fst (ps ! k)) (snd (ps ! k)) (int k))) [0..<length ps]
   \<and> toArray (Enumerable_zip (+) (ArrayLike [1, 2]) None (Enumerable_from (ArrayLike [1, 2, 3 :: int])))
       = Inr [2, 4]"
proof -
  have a: "toArray (Enumerable_zip js_plus (ArrayLike ys) (Some f) (Enumerable_from (ArrayLike xs))) =
     Inr (map (\<lambda>k. f (xs ! k) (ys ! k) (int k)) [0..<min (length xs) (length ys)])"
    using toArray_map_Yields [of "map (\<lambda>k. f (xs ! k) (ys ! k) (int k)) [0..<min (length xs) (length ys)]"]
    by (simp add: Enumerable_zip_def zipInner_Yields comp_def)
  have b: "zipInner f (- 1) (map Yields (map fst ps)) (map Yields (map snd ps) @ rest2) =
     map (\<lambda>k. Yields (f (fst (ps ! k)) (snd (ps ! k)) (int k))) [0..<length ps]"
    using zipInner_this_exhausted [of f "- 1" ps rest2] by simp
  have c: "zipInner f (- 1) (map Yields (map fst ps) @ Yields x # rest1) (map Yields (map snd ps)) =
     map (\<lambda>k. Yields (f (fst (ps ! k)) (snd (ps ! k)) (int k))) [0..<length ps]"
    using zipInner_second_exhausted [of f "- 1" ps x rest1] by simp
  have d: "toArray (Enumerable_zip (+) (ArrayLike [1, 2]) None (Enumerable_from (ArrayLike [1, 2, 3 :: int])))
       = Inr [2, 4]"
    by (simp add: Enumerable_zip_def)
  from a b c d show ?thesis by blast
qed

lemma takeWhileInner_countDown:
  "takeWhileInner countDown n (map Yields xs) = map Yields (take (nat n) xs)"
proof (induction xs arbitrary: n)
  case Nil
  then show ?case by simp
next
  case (Cons x xs)
  show ?case
  proof (cases "n > 0")
    case True
    then have "nat n = Suc (nat (n - 1))" by simp
    with True Cons.IH [of "n - 1"] show ?thesis
      by (simp add: countDown_def)
  next
    case False
    then show ?thesis by (simp add: countDown_def)
  qed
qed

lemma skipWhileInner_returning:
  "skipWhileInner predicate s True (map Yields xs) = map Yields xs"
  by (induction xs) auto

lemma skipWhileInner_countDown:
  "skipWhileInner countDown n False (map Yields xs) = map Yields (drop (nat n) xs)"
proof (induction xs arbitrary: n)
  case Nil
  then show ?case by simp
next
  case (Cons x xs)
  show ?case
  proof (cases "n > 0")
    case True
    then have "nat n = Suc (nat (n - 1))" by simp
    with True Cons.IH [of "n - 1"] show ?thesis
      by (simp add: countDown_def)
  next
    case False
    then show ?thesis by (simp add: countDown_def skipWhileInner_returning)
  qed
qed

lemma rangeInner_upto: "rangeInner cur cnt = map Yields [cur..cur + cnt - 1]"
proof (induction cur cnt rule: rangeInner.induct)
  case (1 cur cnt)
  show ?case
  proof (cases "cnt < 1")
    case True
    then show ?thesis by simp
  next
    case False
    then have "[cur..cur + cnt - 1] = cur # [cur + 1..cur + 1 + (cnt - 1) - 1]"
      by (simp add: upto_rec1)
    with False "1.IH" show ?thesis
      by (subst rangeInner.simps) simp
  qed
qed

text \<open>
  C8. \<^verbatim>\<open>range(0, 10)\<close> delivers 0, ..., 9. For every \<open>n\<close> from 0 to 10, \<^verbatim>\<open>take(n)\<close> of such a
  range drained by \<^verbatim>\<open>toArray()\<close> gives its first \<open>n\<close> elements, \<^verbatim>\<open>skip(n)\<close> of such a range
  gives the others, and the two arrays appended are 0, ..., 9 again: no element is lost and
  none is delivered twice. (Each operator runs on a range of its own.)
\<close>

theorem take_skip_partition_range:
  assumes "0 \<le> n" and "n \<le> 10"
  shows "\<exists>r a b. Enumerable_range (Some 0) (Some 10) = Some r
           \<and> toArray r = Inr [0, 1, 2, 3, 4, 5, 6, 7, 8, 9]
           \<and> toArray (Enumerable_take (Some n) r) = Inr a
           \<and> toArray (skip (Some n) r) = Inr b
           \<and> a @ b = [0, 1, 2, 3, 4, 5, 6, 7, 8, 9]
           \<and> int (length a) = n \<and> int (length b) = 10 - n"
proof -
  let ?xs = "[0, 1, 2, 3, 4, 5, 6, 7, 8, 9 :: int]"
  have upto: "[0..9] = ?xs"
    by (simp add: upto_rec1)
  have r: "Enumerable_range (Some 0) (Some 10) = Some (map Yields ?xs)"
    using rangeInner_upto [of 0 10] upto by (simp add: Enumerable_range_def)
  have a: "toArray (Enumerable_take (Some n) (map Yields ?xs)) = Inr (take (nat n) ?xs)"
    unfolding Enumerable_take_def countOrOne_def
    by (simp only: option.case takeWhileInner_countDown toArray_map_Yields)
  have b: "toArray (skip (Some n) (map Yields ?xs)) = Inr (drop (nat n) ?xs)"
    unfolding skip_def countOrOne_def
    by (simp only: option.case skipWhileInner_countDown toArray_map_Yields)
  have len: "int (length (take (nat n) ?xs)) = n" "int (length (drop (nat n) ?xs)) = 10 - n"
    using assms by simp_all
  have "take (nat n) ?xs @ drop (nat n) ?xs = ?xs"
    by (rule append_take_drop_id)
  with r a b len show ?thesis
    using toArray_map_Yields [of ?xs] by blast
qed

theorem take_skip_partition_range_witness:
  "(0::int) \<le> 3 \<and> (3::int) \<le> 10
   \<and> Enumerable_range (Some 0) (Some 10) = Some (map Yields [0, 1, 2, 3, 4, 5, 6, 7, 8, 9])
   \<and> toArray (Enumerable_take (Some 3) (map Yields [0, 1, 2, 3, 4, 5, 6, 7, 8, 9 :: int])) = Inr [0, 1, 2]
   \<and> toArray (skip (Some 3) (map Yields [0, 1, 2, 3, 4, 5, 6, 7, 8, 9 :: int])) = Inr [3, 4, 5, 6, 7, 8, 9]"
proof -
  have h1: "(0::int) \<le> 3" and h2: "(3::int) \<le> 10" by simp_all
  obtain r a b where
    r: "Enumerable_range (Some 0) (Some 10) = Some r" and
    rr: "toArray r = Inr [0, 1, 2, 3, 4, 5, 6, 7, 8, 9]" and
    a: "toArray (Enumerable_take (Some 3) r) = Inr a" and
    b: "toArray (skip (Some 3) r) = Inr b"
    using take_skip_partition_range [OF h1 h2] by blast
  have "toArray (Enumerable_take (Some 3) (map Yields [0, 1, 2, 3, 4, 5, 6, 7, 8, 9 :: int])) = Inr [0, 1, 2]"
    by (simp add: Enumerable_take_def countOrOne_def countDown_def)
  moreover have "toArray (skip (Some 3) (map Yields [0, 1, 2, 3, 4, 5, 6, 7, 8, 9 :: int])) = Inr [3, 4, 5, 6, 7, 8, 9]"
    by (simp add: skip_def countOrOne_def countDown_def)
  moreover have "Enumerable_range (Some 0) (Some 10) = Some (map Yields [0, 1, 2, 3, 4, 5, 6, 7, 8, 9])"
    by (simp add: Enumerable_range_def)
  ultimately show ?thesis using r by simp
qed

lemma upt_0_Suc_shift: "[0..<Suc n] = 0 # map Suc [0..<n]"
  by (simp add: upt_conv_Cons map_Suc_upt del: upt_Suc)

lemma forAll_loop_Yields:
  "forAll_loop (Some f) ERRORS i (map Yields xs) =
     Inr (ERRORS @ map (\<lambda>k. \<lparr>fe_error = the (f (xs ! k) (i + 1 + int k)), fe_function = f, fe_index = i + 1 + int k\<rparr>)
                     (filter (\<lambda>k. f (xs ! k) (i + 1 + int k) \<noteq> None) [0..<length xs]),
          i + int (length xs))"
proof (induction xs arbitrary: ERRORS i)
  case Nil
  then show ?case by simp
next
  case (Cons x xs)
  show ?case
    using Cons.IH [of _ "i + 1"]
    by (auto simp add: upt_0_Suc_shift filter_map comp_def add.assoc simp del: upt_Suc)
qed

lemma forAll_loop_None:
  "forAll_loop None ERRORS i (map Yields xs) = Inr (ERRORS, i + int (length xs))"
  by (induction xs arbitrary: i) auto

lemma singleOrDefault_loop_Yields:
  "singleOrDefault_loop p result (map Yields xs) =
     (case (result, filter p xs) of
        (r, []) \<Rightarrow> Inr r
      | (None, [x]) \<Rightarrow> Inr (Some x)
      | _ \<Rightarrow> Inl MoreThanOneMatch)"
  by (induction xs arbitrary: result) (auto split: list.splits option.splits)

lemma singleOrDefault_loop_second_match:
  "filter p xs \<noteq> [] \<Longrightarrow> singleOrDefault_loop p (Some r) (map Yields xs @ rest) = Inl MoreThanOneMatch"
  by (induction xs) auto

lemma singleOrDefault_loop_more:
  "2 \<le> length (filter p xs) \<Longrightarrow> singleOrDefault_loop p None (map Yields xs @ rest) = Inl MoreThanOneMatch"
proof (induction xs)
  case Nil
  then show ?case by simp
next
  case (Cons x xs)
  show ?case
  proof (cases "p x")
    case True
    with Cons.prems have "filter p xs \<noteq> []" by auto
    with True show ?thesis by (simp add: singleOrDefault_loop_second_match)
  next
    case False
    with Cons show ?thesis by simp
  qed
qed

text \<open>
  C4. \<^verbatim>\<open>forAll\<close> visits every element of the sequence, whatever the action throws on the way
  (the loop ends with \<^verbatim>\<open>i\<close> at the last index). For every index at which the action throws
  there is exactly one \<^verbatim>\<open>FunctionError\<close>, holding the thrown value, the action and that
  zero-based index; they are collected in the order of the indices and none is filtered
  out. When there is at least one, \<^verbatim>\<open>forAll\<close> throws one \<^verbatim>\<open>AggregateError\<close> with exactly these
  errors, after the traversal; when there is none (or no action) it returns normally. With
  three elements and an action failing on the second and the third, the aggregate holds two
  errors, with the indices 1 and 2.
\<close>

theorem forAll_collects_every_failure:
  "forAll_loop (Some f) [] (- 1) (map Yields xs) =
     Inr (map (\<lambda>k. \<lparr>fe_error = the (f (xs ! k) (int k)), fe_function = f, fe_index = int k\<rparr>)
            (filter (\<lambda>k. f (xs ! k) (int k) \<noteq> None) [0..<length xs]),
          int (length xs) - 1)
   \<and> forAll (Some f) (map Yields xs) =
     (if filter (\<lambda>k. f (xs ! k) (int k) \<noteq> None) [0..<length xs] = [] then Inr ()
      else Inl (Aggregate \<lparr>errors =
             map (\<lambda>k. \<lparr>fe_error = the (f (xs ! k) (int k)), fe_function = f, fe_index = int k\<rparr>)
               (filter (\<lambda>k. f (xs ! k) (int k) \<noteq> None) [0..<length xs])\<rparr>))
   \<and> forAll None (map Yields xs) = Inr ()
   \<and> forAll (Some (\<lambda>item i. if 1 \<le> i then Some (UserThrown ''boom'') else None)) (map Yields [a, b, c]) =
       Inl (Aggregate \<lparr>errors =
         [\<lparr>fe_error = UserThrown ''boom'',
           fe_function = (\<lambda>item i. if 1 \<le> i then Some (UserThrown ''boom'') else None), fe_index = 1\<rparr>,
          \<lparr>fe_error = UserThrown ''boom'',
           fe_function = (\<lambda>item i. if 1 \<le> i then Some (UserThrown ''boom'') else None), fe_index = 2\<rparr>]\<rparr>)"
proof -
  let ?failing = "filter (\<lambda>k. f (xs ! k) (int k) \<noteq> None) [0..<length xs]"
  let ?wrap = "\<lambda>k. \<lparr>fe_error = the (f (xs ! k) (int k)), fe_function = f, fe_index = int k\<rparr>"
  have loop: "forAll_loop (Some f) [] (- 1) (map Yields xs) = Inr (map ?wrap ?failing, int (length xs) - 1)"
    using forAll_loop_Yields [of f "[]" "- 1" xs] by simp
  have filter_Some: "map the (filter (\<lambda>e. e \<noteq> None) (map Some es)) = es" for es :: "'a FunctionError list"
    by (induction es) auto
  have all: "forAll (Some f) (map Yields xs) =
      (if ?failing = [] then Inr () else Inl (Aggregate \<lparr>errors = map ?wrap ?failing\<rparr>))"
    unfolding forAll_def loop by (simp add: new_AggregateError_def filter_Some)
  have none: "forAll None (map Yields xs) = Inr ()"
    by (simp add: forAll_def forAll_loop_None)
  have ex: "forAll (Some (\<lambda>item i. if 1 \<le> i then Some (UserThrown ''boom'') else None)) (map Yields [a, b, c]) =
       Inl (Aggregate \<lparr>errors =
         [\<lparr>fe_error = UserThrown ''boom'',
           fe_function = (\<lambda>item i. if 1 \<le> i then Some (UserThrown ''boom'') else None), fe_index = 1\<rparr>,
          \<lparr>fe_error = UserThrown ''boom'',
           fe_function = (\<lambda>item i. if 1 \<le> i then Some (UserThrown ''boom'') else None), fe_index = 2\<rparr>]\<rparr>)"
    by (simp add: forAll_def new_AggregateError_def)
  from loop all none ex show ?thesis by blast
qed

text \<open>
  C5. On a sequence of elements \<open>xs\<close>, \<^verbatim>\<open>single\<close> and \<^verbatim>\<open>singleOrDefault\<close> look at the elements
  that satisfy the (safe) predicate: with exactly one they return it; with more than one
  both throw "Sequence contains more that one matching element", \<^verbatim>\<open>singleOrDefault\<close> also
  when a default value \<open>d\<close> was passed, and already at the second match, whatever the
  sequence would deliver afterwards (\<open>rest\<close>); with none \<^verbatim>\<open>single\<close> throws "Element not found"
  and \<^verbatim>\<open>singleOrDefault\<close> returns the default value, which is the one passed with the
  predicate, or \<^verbatim>\<open>NOT_FOUND\<close> when only the predicate was passed.
\<close>

theorem single_unique_match:
  "single pa (map Yields xs) =
     (case filter (toPredicateSafe pa) xs of
        [] \<Rightarrow> Inl ElementNotFound | [x] \<Rightarrow> Inr x | x # y # zs \<Rightarrow> Inl MoreThanOneMatch)
   \<and> singleOrDefault truthy args (map Yields xs) =
     (case filter (ARGS_predicate (getOrDefaultArguments truthy args)) xs of
        [] \<Rightarrow> Inr (DefaultValue (ARGS_defaultValue (getOrDefaultArguments truthy args)))
      | [x] \<Rightarrow> Inr (Item x)
      | x # y # zs \<Rightarrow> Inl MoreThanOneMatch)
   \<and> getOrDefaultArguments truthy [IsFunction p, d] = \<lparr>ARGS_defaultValue = d, ARGS_predicate = p\<rparr>
   \<and> getOrDefaultArguments truthy [IsFunction p] =
       \<lparr>ARGS_defaultValue = NotFunction (Symbol NOT_FOUND), ARGS_predicate = p\<rparr>
   \<and> (2 \<le> length (filter (toPredicateSafe pa) xs) \<longrightarrow>
         single pa (map Yields xs @ rest) = Inl MoreThanOneMatch)
   \<and> (2 \<le> length (filter p xs) \<longrightarrow>
         singleOrDefault truthy [IsFunction p, d] (map Yields xs @ rest) = Inl MoreThanOneMatch)"
proof -
  have loop: "singleOrDefault_loop q None (map Yields xs) =
      (case filter q xs of [] \<Rightarrow> Inr None | [x] \<Rightarrow> Inr (Some x) | x # y # zs \<Rightarrow> Inl MoreThanOneMatch)" for q
    by (simp add: singleOrDefault_loop_Yields split: list.splits)
  have a: "single pa (map Yields xs) =
     (case filter (toPredicateSafe pa) xs of
        [] \<Rightarrow> Inl ElementNotFound | [x] \<Rightarrow> Inr x | x # y # zs \<Rightarrow> Inl MoreThanOneMatch)"
    by (simp add: single_def singleOrDefault_def loop split: list.splits)
  have b: "singleOrDefault truthy args (map Yields xs) =
     (case filter (ARGS_predicate (getOrDefaultArguments truthy args)) xs of
        [] \<Rightarrow> Inr (DefaultValue (ARGS_defaultValue (getOrDefaultArguments truthy args)))
      | [x] \<Rightarrow> Inr (Item x)
      | x # y # zs \<Rightarrow> Inl MoreThanOneMatch)"
    by (simp add: singleOrDefault_def loop Let_def split: list.splits)
  have c: "getOrDefaultArguments truthy [IsFunction p, d] = \<lparr>ARGS_defaultValue = d, ARGS_predicate = p\<rparr>"
    "getOrDefaultArguments truthy [IsFunction p] =
       \<lparr>ARGS_defaultValue = NotFunction (Symbol NOT_FOUND), ARGS_predicate = p\<rparr>"
    by simp_all
  have d: "2 \<le> length (filter (toPredicateSafe pa) xs) \<longrightarrow>
         single pa (map Yields xs @ rest) = Inl MoreThanOneMatch"
    by (simp add: single_def singleOrDefault_def singleOrDefault_loop_more)
  have e: "2 \<le> length (filter p xs) \<longrightarrow>
         singleOrDefault truthy [IsFunction p, d] (map Yields xs @ rest) = Inl MoreThanOneMatch"
    by (simp add: singleOrDefault_def singleOrDefault_loop_more)
  from a b c d e show ?thesis by blast
qed

theorem single_unique_match_witness:
  "2 \<le> length (filter (\<lambda>x. 1 < x) [1, 2, 3 :: int])
   \<and> single (Function (\<lambda>x. 1 < x)) (map Yields [1, 2, 3 :: int] @ [Throws TypeError]) = Inl MoreThanOneMatch
   \<and> singleOrDefault (\<lambda>u :: unit. True) [IsFunction (\<lambda>x. 1 < x), NotFunction Null]
         (map Yields [1, 2, 3 :: int] @ [Throws TypeError]) = Inl MoreThanOneMatch
   \<and> single (Function (\<lambda>x. 2 < x)) (map Yields [1, 2, 3 :: int]) = Inr 3
   \<and> single (Function (\<lambda>x. 3 < x)) (map Yields [1, 2, 3 :: int]) = Inl ElementNotFound
   \<and> singleOrDefault (\<lambda>u :: unit. True) [IsFunction (\<lambda>x. 3 < x)] (map Yields [1, 2, 3 :: int])
       = Inr (DefaultValue (NotFunction (Symbol NOT_FOUND)))"
  using single_unique_match [of "Function (\<lambda>x. 1 < x)" "[1, 2, 3 :: int]" "\<lambda>u :: unit. True"
      "[IsFunction (\<lambda>x. 1 < x), NotFunction Null]" "\<lambda>x. 1 < x" "NotFunction Null" "[Throws TypeError]"]
  by (simp add: single_def singleOrDefault_def)















lemma foundIn_iff: "foundIn comparer item ts \<longleftrightarrow> (\<exists>t\<in>set ts. comparer item t)"
  by (induction ts) auto

lemma first_occurrences_after_index:
  "map (\<lambda>i. (seen @ xs) ! i)
       (filter (\<lambda>i. \<not> (\<exists>j<i. eq ((seen @ xs) ! i) ((seen @ xs) ! j))) [length seen..<length seen + length xs])
     = first_occurrences_after eq seen xs"
proof (induction xs arbitrary: seen)
  case Nil
  then show ?case by simp
next
  case (Cons x xs)
  let ?all = "seen @ x # xs"
  let ?P = "\<lambda>i. \<not> (\<exists>j<i. eq (?all ! i) (?all ! j))"
  let ?rest = "[length (seen @ [x])..<length (seen @ [x]) + length xs]"
  have all: "(seen @ [x]) @ xs = ?all" by simp
  have split: "[length seen..<length seen + length (x # xs)] = length seen # ?rest"
    by (simp add: upt_conv_Cons del: upt_Suc)
  have at: "?all ! length seen = x" by simp
  have before: "?all ! j = seen ! j" if "j < length seen" for j
    using that by (simp add: nth_append)
  have here: "?P (length seen) = (\<not> (\<exists>y\<in>set seen. eq x y))"
  proof -
    have "(\<exists>j<length seen. eq x (?all ! j)) = (\<exists>j<length seen. eq x (seen ! j))"
      using before by auto
    also have "\<dots> = (\<exists>y\<in>set seen. eq x y)"
      by (metis in_set_conv_nth)
    finally show ?thesis unfolding at by simp
  qed
  have tail: "map (\<lambda>i. ?all ! i) (filter ?P ?rest) = first_occurrences_after eq (seen @ [x]) xs"
    using Cons.IH [of "seen @ [x]"] unfolding all .
  have "map (\<lambda>i. ?all ! i) (filter ?P (length seen # ?rest)) =
      (if ?P (length seen) then [x] else []) @ map (\<lambda>i. ?all ! i) (filter ?P ?rest)"
    using at by simp
  then show ?case
    unfolding split tail here by simp
qed

lemma first_occurrences_eq: "first_occurrences eq xs = first_occurrences_after eq [] xs"
  using first_occurrences_after_index [of "[]" xs eq] by (simp add: first_occurrences_def)

lemma distinctByInner_first_occurrences_after:
  assumes trans: "\<forall>x\<in>A. \<forall>y\<in>A. \<forall>z\<in>A. eq x y \<longrightarrow> eq y z \<longrightarrow> eq x z"
    and "set seen \<subseteq> A" and "set xs \<subseteq> A"
    and "set TEMP \<subseteq> set seen"
    and "\<forall>y\<in>set seen. y \<in> set TEMP \<or> (\<exists>t\<in>set TEMP. eq y t)"
  shows "distinctByInner (\<lambda>i. i) eq TEMP (map Yields xs) = map Yields (first_occurrences_after eq seen xs)"
  using assms(2-)
proof (induction xs arbitrary: TEMP seen)
  case Nil
  then show ?case by simp
next
  case (Cons x xs)
  have xA: "x \<in> A" using Cons.prems(2) by simp
  have found: "foundIn eq x TEMP = (\<exists>y\<in>set seen. eq x y)"
  proof
    assume "foundIn eq x TEMP"
    then show "\<exists>y\<in>set seen. eq x y"
      using Cons.prems(3) by (auto simp: foundIn_iff)
  next
    assume "\<exists>y\<in>set seen. eq x y"
    then obtain y where y: "y \<in> set seen" "eq x y" by blast
    from Cons.prems(4) y(1) consider "y \<in> set TEMP" | t where "t \<in> set TEMP" "eq y t" by blast
    then show "foundIn eq x TEMP"
    proof cases
      case 1
      with y show ?thesis by (auto simp: foundIn_iff)
    next
      case 2
      have "y \<in> A" "t \<in> A" using y(1) 2(1) Cons.prems(1,3) by auto
      with trans xA y(2) 2(2) have "eq x t" by blast
      with 2(1) show ?thesis by (auto simp: foundIn_iff)
    qed
  qed
  show ?case
  proof (cases "foundIn eq x TEMP")
    case True
    have "distinctByInner (\<lambda>i. i) eq TEMP (map Yields xs) = map Yields (first_occurrences_after eq (seen @ [x]) xs)"
    proof (rule Cons.IH)
      show "set (seen @ [x]) \<subseteq> A" using Cons.prems(1) xA by simp
      show "set xs \<subseteq> A" using Cons.prems(2) by simp
      show "set TEMP \<subseteq> set (seen @ [x])" using Cons.prems(3) by auto
      show "\<forall>y\<in>set (seen @ [x]). y \<in> set TEMP \<or> (\<exists>t\<in>set TEMP. eq y t)"
        using Cons.prems(4) True by (auto simp: foundIn_iff)
    qed
    with True found show ?thesis by simp
  next
    case False
    have "distinctByInner (\<lambda>i. i) eq (TEMP @ [x]) (map Yields xs) = map Yields (first_occurrences_after eq (seen @ [x]) xs)"
    proof (rule Cons.IH)
      show "set (seen @ [x]) \<subseteq> A" using Cons.prems(1) xA by simp
      show "set xs \<subseteq> A" using Cons.prems(2) by simp
      show "set (TEMP @ [x]) \<subseteq> set (seen @ [x])" using Cons.prems(3) by auto
      show "\<forall>y\<in>set (seen @ [x]). y \<in> set (TEMP @ [x]) \<or> (\<exists>t\<in>set (TEMP @ [x]). eq y t)"
        using Cons.prems(4) by auto
    qed
    with False found show ?thesis by simp
  qed
qed

lemma first_occurrences_after_subset: "set (first_occurrences_after eq seen xs) \<subseteq> set xs"
  by (induction xs arbitrary: seen) auto

lemma first_occurrences_after_unseen_all:
  "\<forall>t\<in>set (first_occurrences_after eq seen xs). \<forall>y\<in>set seen. \<not> eq t y"
proof (induction xs arbitrary: seen)
  case Nil
  then show ?case by simp
next
  case (Cons x xs)
  from Cons.IH [of "seen @ [x]"] show ?case by auto
qed

lemma first_occurrences_after_unseen:
  "t \<in> set (first_occurrences_after eq seen xs) \<Longrightarrow> y \<in> set seen \<Longrightarrow> \<not> eq t y"
  using first_occurrences_after_unseen_all [of eq seen xs] by blast

lemma first_occurrences_after_unrelated:
  assumes refl: "\<forall>x\<in>A. eq x x" and sym: "\<forall>x\<in>A. \<forall>y\<in>A. eq x y \<longrightarrow> eq y x"
    and "set xs \<subseteq> A"
  shows "distinct (first_occurrences_after eq seen xs)
     \<and> (\<forall>s\<in>set (first_occurrences_after eq seen xs). \<forall>t\<in>set (first_occurrences_after eq seen xs).
            eq s t \<longrightarrow> s = t)"
  using assms(3)
proof (induction xs arbitrary: seen)
  case Nil
  then show ?case by simp
next
  case (Cons x xs)
  let ?tail = "first_occurrences_after eq (seen @ [x]) xs"
  have xA: "x \<in> A" and xsA: "set xs \<subseteq> A" using Cons.prems by auto
  have IH: "distinct ?tail" "\<forall>s\<in>set ?tail. \<forall>t\<in>set ?tail. eq s t \<longrightarrow> s = t"
    using Cons.IH [OF xsA, of "seen @ [x]"] by blast+
  have tx: "\<not> eq t x" if "t \<in> set ?tail" for t
    using first_occurrences_after_unseen [OF that, of x] by simp
  have tA: "t \<in> A" if "t \<in> set ?tail" for t
    using that first_occurrences_after_subset [of eq "seen @ [x]" xs] xsA by auto
  have xt: "\<not> eq x t" if "t \<in> set ?tail" for t
    using tx [OF that] sym xA tA [OF that] by blast
  have "x \<notin> set ?tail" using tx refl xA by blast
  with IH tx xt show ?case by auto
qed

lemma first_occurrences_after_covers:
  assumes refl: "\<forall>x\<in>A. eq x x"
    and trans: "\<forall>x\<in>A. \<forall>y\<in>A. \<forall>z\<in>A. eq x y \<longrightarrow> eq y z \<longrightarrow> eq x z"
    and "set seen \<subseteq> A" and "set xs \<subseteq> A"
  shows "\<forall>x\<in>set xs. (\<exists>y\<in>set seen. eq x y) \<or> (\<exists>t\<in>set (first_occurrences_after eq seen xs). eq x t)"
  using assms(3-)
proof (induction xs arbitrary: seen)
  case Nil
  then show ?case by simp
next
  case (Cons x xs)
  let ?tail = "first_occurrences_after eq (seen @ [x]) xs"
  have xA: "x \<in> A" and xsA: "set xs \<subseteq> A" and seenA: "set seen \<subseteq> A" using Cons.prems by auto
  have IH: "\<forall>z\<in>set xs. (\<exists>y\<in>set (seen @ [x]). eq z y) \<or> (\<exists>t\<in>set ?tail. eq z t)"
    using Cons.IH [of "seen @ [x]"] xA xsA seenA by simp
  show ?case
  proof (cases "\<exists>y\<in>set seen. eq x y")
    case True
    then obtain y0 where y0: "y0 \<in> set seen" "eq x y0" by blast
    have "(\<exists>y\<in>set seen. eq z y) \<or> (\<exists>t\<in>set ?tail. eq z t)" if z: "z \<in> set xs" for z
    proof -
      from IH z consider y where "y \<in> set seen" "eq z y" | "eq z x" | t where "t \<in> set ?tail" "eq z t"
        by auto
      then show ?thesis
      proof cases
        case 1 then show ?thesis by blast
      next
        case 2
        have "z \<in> A" "y0 \<in> A" using z xsA y0(1) seenA by auto
        with trans xA 2 y0(2) have "eq z y0" by blast
        with y0(1) show ?thesis by blast
      next
        case 3 then show ?thesis by blast
      qed
    qed
    with True show ?thesis by auto
  next
    case False
    have "(\<exists>y\<in>set seen. eq z y) \<or> (\<exists>t\<in>set (x # ?tail). eq z t)" if z: "z \<in> set xs" for z
      using IH z by auto
    moreover have "eq x x" using refl xA by blast
    ultimately show ?thesis using False by auto
  qed
qed

lemma distinct_toArray:
  assumes "equivalence_on (set S) (toEqualityComparerSafe loose_eq strict_eq comparer)"
  shows "toArray (Enumerable_distinct loose_eq strict_eq comparer (map Yields S)) =
           Inr (first_occurrences (toEqualityComparerSafe loose_eq strict_eq comparer) S)"
proof -
  let ?eq = "toEqualityComparerSafe loose_eq strict_eq comparer"
  from assms have trans: "\<forall>x\<in>set S. \<forall>y\<in>set S. \<forall>z\<in>set S. ?eq x y \<longrightarrow> ?eq y z \<longrightarrow> ?eq x z"
    unfolding equivalence_on_def by blast
  have "distinctByInner (\<lambda>i. i) ?eq [] (map Yields S) = map Yields (first_occurrences ?eq S)"
    unfolding first_occurrences_eq
    by (rule distinctByInner_first_occurrences_after [OF trans]) simp_all
  then show ?thesis
    by (simp add: Enumerable_distinct_def distinctBy_def toArray_map_Yields)
qed

lemma first_occurrences_represent:
  assumes "equivalence_on (set S) eq" and "x \<in> set S"
  shows "\<exists>t\<in>set (first_occurrences eq S). eq x t"
proof -
  from assms(1) have refl: "\<forall>x\<in>set S. eq x x"
    and trans: "\<forall>x\<in>set S. \<forall>y\<in>set S. \<forall>z\<in>set S. eq x y \<longrightarrow> eq y z \<longrightarrow> eq x z"
    unfolding equivalence_on_def by blast+
  from first_occurrences_after_covers [OF refl trans _ subset_refl, of "[]"] assms(2)
  show ?thesis unfolding first_occurrences_eq by auto
qed

text \<open>
  C6 (as amended). Let the comparer in force (\<^verbatim>\<open>==\<close> when none is passed, \<^verbatim>\<open>===\<close> for \<^verbatim>\<open>true\<close>,
  the function passed otherwise) be an equivalence relation on the values of the finite
  sequence \<open>S\<close>. Then \<^verbatim>\<open>S.distinct(comparer).toArray()\<close> is the list of the elements of \<open>S\<close>
  that are equal to no earlier element, in the order of \<open>S\<close>; no element occurs twice in it
  and no two of its elements satisfy the comparer; and every value of \<open>S\<close> is equal to
  exactly one of its elements. \<^verbatim>\<open>[1,2,2,3,1].distinct()\<close> gives \<^verbatim>\<open>[1,2,3]\<close>; \<^verbatim>\<open>[1,"1"].distinct()\<close>
  gives \<^verbatim>\<open>[1]\<close> and \<^verbatim>\<open>[1,"1"].distinct(true)\<close> gives \<^verbatim>\<open>[1,"1"]\<close>.
\<close>

theorem distinct_first_occurrences:
  assumes "equivalence_on (set S) (toEqualityComparerSafe loose_eq strict_eq comparer)"
  shows "toArray (Enumerable_distinct loose_eq strict_eq comparer (map Yields S)) =
           Inr (first_occurrences (toEqualityComparerSafe loose_eq strict_eq comparer) S)
     \<and> distinct (first_occurrences (toEqualityComparerSafe loose_eq strict_eq comparer) S)
     \<and> (\<forall>s\<in>set (first_occurrences (toEqualityComparerSafe loose_eq strict_eq comparer) S).
         \<forall>t\<in>set (first_occurrences (toEqualityComparerSafe loose_eq strict_eq comparer) S).
           toEqualityComparerSafe loose_eq strict_eq comparer s t \<longrightarrow> s = t)
     \<and> (\<forall>x\<in>set S. \<exists>!t. t \<in> set (first_occurrences (toEqualityComparerSafe loose_eq strict_eq comparer) S)
           \<and> toEqualityComparerSafe loose_eq strict_eq comparer x t)
     \<and> toEqualityComparerSafe loose_eq strict_eq NoComparer = loose_eq
     \<and> toEqualityComparerSafe loose_eq strict_eq StrictFlag = strict_eq
     \<and> toArray (Enumerable_distinct (=) (=) NoComparer (map Yields [1, 2, 2, 3, 1 :: int])) = Inr [1, 2, 3]
     \<and> toArray (Enumerable_distinct literal_loose_eq literal_strict_eq NoComparer (map Yields [num_1, str_1]))
         = Inr [num_1]
     \<and> toArray (Enumerable_distinct literal_loose_eq literal_strict_eq StrictFlag (map Yields [num_1, str_1]))
         = Inr [num_1, str_1]"
proof -
  let ?eq = "toEqualityComparerSafe loose_eq strict_eq comparer"
  let ?out = "first_occurrences ?eq S"
  from assms have refl: "\<forall>x\<in>set S. ?eq x x"
    and sym: "\<forall>x\<in>set S. \<forall>y\<in>set S. ?eq x y \<longrightarrow> ?eq y x"
    and trans: "\<forall>x\<in>set S. \<forall>y\<in>set S. \<forall>z\<in>set S. ?eq x y \<longrightarrow> ?eq y z \<longrightarrow> ?eq x z"
    unfolding equivalence_on_def by blast+
  have out: "?out = first_occurrences_after ?eq [] S"
    by (rule first_occurrences_eq)
  have a: "toArray (Enumerable_distinct loose_eq strict_eq comparer (map Yields S)) = Inr ?out"
    by (rule distinct_toArray [OF assms])
  have b: "distinct ?out" and c: "\<forall>s\<in>set ?out. \<forall>t\<in>set ?out. ?eq s t \<longrightarrow> s = t"
    unfolding out using first_occurrences_after_unrelated [OF refl sym subset_refl, of "[]"] by blast+
  have sub: "set ?out \<subseteq> set S"
    unfolding out by (rule first_occurrences_after_subset)
  have d: "\<forall>x\<in>set S. \<exists>!t. t \<in> set ?out \<and> ?eq x t"
  proof
    fix x assume x: "x \<in> set S"
    from first_occurrences_represent [OF assms x]
    obtain t where t: "t \<in> set ?out" "?eq x t" by blast
    have "t' = t" if t': "t' \<in> set ?out" "?eq x t'" for t'
    proof -
      have mem: "t \<in> set S" "t' \<in> set S" using t(1) t'(1) sub by auto
      from sym x mem t'(2) have "?eq t' x" by blast
      with trans x mem t(2) have "?eq t' t" by blast
      with c t(1) t'(1) show ?thesis by blast
    qed
    with t show "\<exists>!t. t \<in> set ?out \<and> ?eq x t" by blast
  qed
  have e: "toEqualityComparerSafe loose_eq strict_eq NoComparer = loose_eq"
    "toEqualityComparerSafe loose_eq strict_eq StrictFlag = strict_eq"
    by simp_all
  have f: "toArray (Enumerable_distinct (=) (=) NoComparer (map Yields [1, 2, 2, 3, 1 :: int])) = Inr [1, 2, 3]"
    by (simp add: Enumerable_distinct_def distinctBy_def)
  have g: "toArray (Enumerable_distinct literal_loose_eq literal_strict_eq NoComparer (map Yields [num_1, str_1]))
         = Inr [num_1]"
    "toArray (Enumerable_distinct literal_loose_eq literal_strict_eq StrictFlag (map Yields [num_1, str_1]))
         = Inr [num_1, str_1]"
    by (simp_all add: Enumerable_distinct_def distinctBy_def literal_loose_eq_def literal_strict_eq_def)
  from a b c d e f g show ?thesis by blast
qed

theorem distinct_first_occurrences_witness:
  "equivalence_on (set [1, 2, 2, 3, 1 :: int]) (toEqualityComparerSafe (=) (=) NoComparer)
   \<and> toArray (Enumerable_distinct (=) (=) NoComparer (map Yields [1, 2, 2, 3, 1 :: int])) = Inr [1, 2, 3]
   \<and> first_occurrences (toEqualityComparerSafe (=) (=) NoComparer) [1, 2, 2, 3, 1 :: int] = [1, 2, 3]"
proof -
  have h: "equivalence_on (set [1, 2, 2, 3, 1 :: int]) (toEqualityComparerSafe (=) (=) NoComparer)"
    by (simp add: equivalence_on_def)
  from distinct_first_occurrences [OF h]
  have a: "toArray (Enumerable_distinct (=) (=) NoComparer (map Yields [1, 2, 2, 3, 1 :: int])) =
      Inr (first_occurrences (toEqualityComparerSafe (=) (=) NoComparer) [1, 2, 2, 3, 1 :: int])"
    and b: "toArray (Enumerable_distinct (=) (=) NoComparer (map Yields [1, 2, 2, 3, 1 :: int])) = Inr [1, 2, 3]"
    by blast+
  from a b have "first_occurrences (toEqualityComparerSafe (=) (=) NoComparer) [1, 2, 2, 3, 1 :: int] = [1, 2, 3]"
    by simp
  with h b show ?thesis by blast
qed

theorem distinct_loose_counterexample:
  "toArray (Enumerable_distinct literal_loose_eq literal_strict_eq NoComparer (map Yields [str_empty, str_0, num_0]))
     = Inr [str_empty, str_0]
   \<and> num_0 \<in> set [str_empty, str_0, num_0] \<and> num_0 \<notin> set [str_empty, str_0]
   \<and> literal_loose_eq num_0 str_empty \<and> literal_loose_eq num_0 str_0 \<and> str_empty \<noteq> str_0"
  by (simp add: Enumerable_distinct_def distinctBy_def literal_loose_eq_def)

lemma intersectInner_filter:
  "intersectInner second comparer (map Yields xs) = map Yields (filter (\<lambda>x. \<exists>s\<in>set second. comparer x s) xs)"
  by (induction xs) (auto simp: foundIn_iff)

text \<open>
  Where the deduplication of the second sequence is harmless: no comparer is passed, and
  \<^verbatim>\<open>==\<close> is an equivalence relation on the values of the two sequences. Then \<^verbatim>\<open>intersect\<close>
  yields the elements of the first sequence that are equal to some element of the
  second, in order and with their repetitions.
\<close>

lemma intersect_default_comparer:
  assumes eqv: "equivalence_on (set xs \<union> set ys) loose_eq"
  shows "intersect loose_eq strict_eq (ArrayLike ys) NoComparer (map Yields xs) =
           Inr (map Yields (filter (\<lambda>x. \<exists>s\<in>set ys. loose_eq x s) xs))"
proof -
  let ?arr = "first_occurrences loose_eq ys"
  have eqv_ys: "equivalence_on (set ys) (toEqualityComparerSafe loose_eq strict_eq NoComparer)"
    using eqv unfolding equivalence_on_def by simp blast
  have arr: "toArray (Enumerable_distinct loose_eq strict_eq NoComparer (map Yields ys)) = Inr ?arr"
    using distinct_toArray [OF eqv_ys] by simp
  have cover: "\<forall>x\<in>set ys. \<exists>t\<in>set ?arr. loose_eq x t"
    using first_occurrences_represent [of ys loose_eq] eqv_ys by simp
  have sub: "set ?arr \<subseteq> set ys"
    unfolding first_occurrences_eq by (rule first_occurrences_after_subset)
  from eqv have trans: "\<forall>x\<in>set xs \<union> set ys. \<forall>y\<in>set xs \<union> set ys. \<forall>z\<in>set xs \<union> set ys.
      loose_eq x y \<longrightarrow> loose_eq y z \<longrightarrow> loose_eq x z"
    unfolding equivalence_on_def by blast
  have same: "(\<exists>s\<in>set ?arr. loose_eq x s) = (\<exists>s\<in>set ys. loose_eq x s)" if x: "x \<in> set xs" for x
  proof
    assume "\<exists>s\<in>set ?arr. loose_eq x s"
    with sub show "\<exists>s\<in>set ys. loose_eq x s" by blast
  next
    assume "\<exists>s\<in>set ys. loose_eq x s"
    then obtain s where s: "s \<in> set ys" "loose_eq x s" by blast
    from cover s(1) obtain t where t: "t \<in> set ?arr" "loose_eq s t" by blast
    have "t \<in> set ys" using t(1) sub by blast
    with trans x s t(2) have "loose_eq x t" by blast
    with t(1) show "\<exists>s\<in>set ?arr. loose_eq x s" by blast
  qed
  have "filter (\<lambda>x. \<exists>s\<in>set ?arr. loose_eq x s) xs = filter (\<lambda>x. \<exists>s\<in>set ys. loose_eq x s) xs"
    by (rule filter_cong) (simp_all add: same)
  then show ?thesis
    by (simp add: intersect_def arr intersectInner_filter)
qed

text \<open>
  C10, at the input \<^verbatim>\<open>from(["1"]).intersect([1, "1"], true)\<close>: the second sequence is
  deduplicated by \<^verbatim>\<open>distinct()\<close> with the default comparer \<^verbatim>\<open>==\<close>, which drops \<^verbatim>\<open>"1"\<close> as a
  duplicate of \<^verbatim>\<open>1\<close>; the filter then compares with \<^verbatim>\<open>===\<close>, under which \<^verbatim>\<open>"1"\<close> is not equal to
  \<^verbatim>\<open>1\<close>. The result is empty, although \<^verbatim>\<open>"1"\<close> is strictly equal to an element of the
  second sequence; without the deduplication the filter yields it.
\<close>

theorem intersect_strict_after_loose_distinct:
  "intersect literal_loose_eq literal_strict_eq (ArrayLike [num_1, str_1]) StrictFlag (map Yields [str_1]) = Inr []
   \<and> toArray (Enumerable_distinct literal_loose_eq literal_strict_eq NoComparer
         (Enumerable_from (ArrayLike [num_1, str_1]))) = Inr [num_1]
   \<and> str_1 \<in> set [num_1, str_1] \<and> literal_strict_eq str_1 str_1
   \<and> intersectInner [num_1, str_1] (toEqualityComparerSafe literal_loose_eq literal_strict_eq StrictFlag)
         (map Yields [str_1]) = [Yields str_1]"
  by (simp add: intersect_def Enumerable_distinct_def distinctBy_def literal_loose_eq_def literal_strict_eq_def)

lemma count_list_ordered_insert:
  "count_list (ordered_insert f x ys) z = count_list (x # ys) z"
  by (induction ys) auto

lemma insertion_sort_Nil: "insertion_sort f [] = []"
  by (simp add: insertion_sort_def)

lemma insertion_sort_Cons: "insertion_sort f (x # xs) = ordered_insert f x (insertion_sort f xs)"
  by (simp add: insertion_sort_def)

lemma count_list_insertion_sort: "count_list (insertion_sort f xs) z = count_list xs z"
  by (induction xs) (simp_all add: insertion_sort_Nil insertion_sort_Cons count_list_ordered_insert)

lemma set_ordered_insert: "set (ordered_insert f x ys) = insert x (set ys)"
  by (induction ys) auto

lemma set_insertion_sort: "set (insertion_sort f xs) = set xs"
  by (induction xs) (simp_all add: insertion_sort_Nil insertion_sort_Cons set_ordered_insert)

lemma consistent_tie_sym:
  "consistent_comparer A f \<Longrightarrow> a \<in> A \<Longrightarrow> b \<in> A \<Longrightarrow> f a b = 0 \<Longrightarrow> f b a = 0"
  unfolding consistent_comparer_def by (metis less_irrefl linorder_neqE_linordered_idom)

lemma consistent_total:
  "consistent_comparer A f \<Longrightarrow> a \<in> A \<Longrightarrow> b \<in> A \<Longrightarrow> \<not> f a b \<le> 0 \<Longrightarrow> f b a \<le> 0"
  unfolding consistent_comparer_def by (metis less_le_not_le linorder_not_le)

lemma consistent_trans:
  "consistent_comparer A f \<Longrightarrow> a \<in> A \<Longrightarrow> b \<in> A \<Longrightarrow> d \<in> A \<Longrightarrow> f a b \<le> 0 \<Longrightarrow> f b d \<le> 0 \<Longrightarrow> f a d \<le> 0"
  unfolding consistent_comparer_def by blast

lemma consistent_tie_trans:
  assumes c: "consistent_comparer A f" and m: "a \<in> A" "b \<in> A" "d \<in> A"
    and t: "f a d = 0" "f b d = 0"
  shows "f a b = 0"
proof -
  have db: "f d b = 0" using consistent_tie_sym [OF c m(2) m(3) t(2)] .
  have da: "f d a = 0" using consistent_tie_sym [OF c m(1) m(3) t(1)] .
  have le: "f a b \<le> 0" using consistent_trans [OF c m(1) m(3) m(2)] t(1) db by simp
  have ge: "f b a \<le> 0" using consistent_trans [OF c m(2) m(3) m(1)] t(2) da by simp
  from c m have "(f a b < 0) = (0 < f b a)" unfolding consistent_comparer_def by blast
  with le ge show ?thesis by linarith
qed

lemma sorted_ordered_insert:
  assumes c: "consistent_comparer A f" and "x \<in> A" and "set ys \<subseteq> A"
    and "sorted_wrt (\<lambda>a b. f a b \<le> 0) ys"
  shows "sorted_wrt (\<lambda>a b. f a b \<le> 0) (ordered_insert f x ys)"
  using assms(3,4)
proof (induction ys)
  case Nil
  then show ?case by simp
next
  case (Cons y ys)
  have yA: "y \<in> A" and ysA: "set ys \<subseteq> A" using Cons.prems(1) by auto
  show ?case
  proof (cases "f x y \<le> 0")
    case True
    have "f x z \<le> 0" if "z \<in> set ys" for z
    proof -
      have "f y z \<le> 0" using Cons.prems(2) that by simp
      moreover have "z \<in> A" using that ysA by blast
      ultimately show ?thesis using consistent_trans [OF c assms(2) yA _ True] by blast
    qed
    with True Cons.prems(2) show ?thesis by simp
  next
    case False
    have yx: "f y x \<le> 0" using consistent_total [OF c assms(2) yA False] .
    have "sorted_wrt (\<lambda>a b. f a b \<le> 0) (ordered_insert f x ys)"
      using Cons.IH [OF ysA] Cons.prems(2) by simp
    with False yx Cons.prems(2) show ?thesis
      by (simp add: set_ordered_insert)
  qed
qed

lemma sorted_insertion_sort:
  assumes c: "consistent_comparer A f" and "set xs \<subseteq> A"
  shows "sorted_wrt (\<lambda>a b. f a b \<le> 0) (insertion_sort f xs)"
  using assms(2)
proof (induction xs)
  case Nil
  then show ?case by (simp add: insertion_sort_Nil)
next
  case (Cons x xs)
  have "sorted_wrt (\<lambda>a b. f a b \<le> 0) (ordered_insert f x (insertion_sort f xs))"
    by (rule sorted_ordered_insert [OF c]) (use Cons in \<open>auto simp: set_insertion_sort\<close>)
  then show ?case by (simp add: insertion_sort_Cons)
qed

lemma filter_ties_ordered_insert:
  assumes c: "consistent_comparer A f" and "x \<in> A" and "key \<in> A" and "set ys \<subseteq> A"
  shows "filter (\<lambda>y. f y key = 0) (ordered_insert f x ys) =
           (if f x key = 0 then x # filter (\<lambda>y. f y key = 0) ys else filter (\<lambda>y. f y key = 0) ys)"
  using assms(4)
proof (induction ys)
  case Nil
  then show ?case by simp
next
  case (Cons y ys)
  have yA: "y \<in> A" and ysA: "set ys \<subseteq> A" using Cons.prems by auto
  show ?case
  proof (cases "f x y \<le> 0")
    case True
    then show ?thesis by simp
  next
    case False
    have "\<not> (f x key = 0 \<and> f y key = 0)"
      using consistent_tie_trans [OF c assms(2) yA assms(3)] False by auto
    with False Cons.IH [OF ysA] show ?thesis by auto
  qed
qed

lemma filter_ties_insertion_sort:
  assumes c: "consistent_comparer A f" and "key \<in> A" and "set xs \<subseteq> A"
  shows "filter (\<lambda>y. f y key = 0) (insertion_sort f xs) = filter (\<lambda>y. f y key = 0) xs"
  using assms(3)
proof (induction xs)
  case Nil
  then show ?case by (simp add: insertion_sort_Nil)
next
  case (Cons x xs)
  have "filter (\<lambda>y. f y key = 0) (ordered_insert f x (insertion_sort f xs)) =
      (if f x key = 0 then x # filter (\<lambda>y. f y key = 0) (insertion_sort f xs)
       else filter (\<lambda>y. f y key = 0) (insertion_sort f xs))"
    by (rule filter_ties_ordered_insert [OF c _ assms(2)]) (use Cons.prems in \<open>auto simp: set_insertion_sort\<close>)
  with Cons show ?case by (simp add: insertion_sort_Cons)
qed

lemma count_list_map_inj:
  "(\<And>a b. g a = g b \<Longrightarrow> a = b) \<Longrightarrow> count_list (map g xs) (g z) = count_list xs z"
  by (induction xs) auto

lemma count_list_undecorate:
  "\<forall>d\<in>set l. d = g (h d) \<Longrightarrow> (\<And>z. h (g z) = z) \<Longrightarrow> count_list (map h l) z = count_list l (g z)"
  by (induction l) auto

lemma consistent_comparer_on_keys:
  assumes "consistent_comparer K c" and "\<forall>d\<in>A. g d \<in> K"
  shows "consistent_comparer A (\<lambda>x y. c (g x) (g y))"
proof -
  from assms(1) have r: "\<And>a. a \<in> K \<Longrightarrow> c a a = 0"
    and s: "\<And>a b. a \<in> K \<Longrightarrow> b \<in> K \<Longrightarrow> (c a b < 0) = (0 < c b a)"
    and t: "\<And>a b d. a \<in> K \<Longrightarrow> b \<in> K \<Longrightarrow> d \<in> K \<Longrightarrow> c a b \<le> 0 \<Longrightarrow> c b d \<le> 0 \<Longrightarrow> c a d \<le> 0"
    unfolding consistent_comparer_def by blast+
  show ?thesis
    unfolding consistent_comparer_def
  proof (intro conjI ballI impI)
    fix a assume "a \<in> A" then show "c (g a) (g a) = 0" using r assms(2) by blast
  next
    fix a b assume "a \<in> A" "b \<in> A"
    then show "(c (g a) (g b) < 0) = (0 < c (g b) (g a))" using s assms(2) by blast
  next
    fix a b d assume "a \<in> A" "b \<in> A" "d \<in> A" "c (g a) (g b) \<le> 0" "c (g b) (g d) \<le> 0"
    then show "c (g a) (g d) \<le> 0" using t [of "g a" "g b" "g d"] assms(2) by blast
  qed
qed

lemma decorated_count:
  "count_list (map itemValue (insertion_sort f (map (\<lambda>x. \<lparr>sortBy = k x, itemValue = x\<rparr>) xs))) z = count_list xs z"
proof -
  let ?dec1 = "\<lambda>x. \<lparr>sortBy = k x, itemValue = x\<rparr>"
  let ?srt = "insertion_sort f (map ?dec1 xs)"
  have inv: "\<forall>d\<in>set ?srt. d = ?dec1 (itemValue d)"
    unfolding set_insertion_sort by auto
  have "count_list (map itemValue ?srt) z = count_list ?srt (?dec1 z)"
    using inv by (rule count_list_undecorate [where g = "?dec1" and h = itemValue]) simp
  also have "\<dots> = count_list (map ?dec1 xs) (?dec1 z)" by (rule count_list_insertion_sort)
  also have "\<dots> = count_list xs z" by (rule count_list_map_inj) simp
  finally show ?thesis .
qed

lemma decorated_key:
  "d \<in> set (insertion_sort f (map (\<lambda>x. \<lparr>sortBy = k x, itemValue = x\<rparr>) xs)) \<Longrightarrow> sortBy d = k (itemValue d)"
  unfolding set_insertion_sort by auto

lemma decorated_sorted:
  assumes c: "consistent_comparer (k ` set xs) cmp"
  shows "sorted_wrt (\<lambda>a b. cmp (k a) (k b) \<le> 0)
           (map itemValue (insertion_sort (\<lambda>x y. cmp (sortBy x) (sortBy y))
              (map (\<lambda>x. \<lparr>sortBy = k x, itemValue = x\<rparr>) xs)))"
proof -
  let ?dec = "map (\<lambda>x. \<lparr>sortBy = k x, itemValue = x\<rparr>) xs"
  let ?f = "\<lambda>x y. cmp (sortBy x) (sortBy y)"
  let ?srt = "insertion_sort ?f ?dec"
  have cf: "consistent_comparer (set ?dec) ?f"
    by (rule consistent_comparer_on_keys [OF c]) auto
  have "sorted_wrt (\<lambda>a b. ?f a b \<le> 0) ?srt"
    by (rule sorted_insertion_sort [OF cf]) simp
  then have "sorted_wrt (\<lambda>a b. cmp (k (itemValue a)) (k (itemValue b)) \<le> 0) ?srt"
  proof (rule sorted_wrt_mono_rel [rotated])
    fix a b assume "a \<in> set ?srt" "b \<in> set ?srt" "cmp (sortBy a) (sortBy b) \<le> 0"
    then show "cmp (k (itemValue a)) (k (itemValue b)) \<le> 0"
      using decorated_key [of a ?f k xs] decorated_key [of b ?f k xs] by simp
  qed
  then show ?thesis
    by (simp only: sorted_wrt_map)
qed

lemma decorated_stable:
  assumes c: "consistent_comparer (k ` set xs) cmp" and x: "x \<in> set xs"
  shows "filter (\<lambda>y. cmp (k y) (k x) = 0)
           (map itemValue (insertion_sort (\<lambda>x y. cmp (sortBy x) (sortBy y))
              (map (\<lambda>x. \<lparr>sortBy = k x, itemValue = x\<rparr>) xs)))
         = filter (\<lambda>y. cmp (k y) (k x) = 0) xs"
proof -
  let ?dec1 = "\<lambda>x. \<lparr>sortBy = k x, itemValue = x\<rparr>"
  let ?dec = "map ?dec1 xs"
  let ?f = "\<lambda>x y. cmp (sortBy x) (sortBy y)"
  let ?srt = "insertion_sort ?f ?dec"
  have cf: "consistent_comparer (set ?dec) ?f"
    by (rule consistent_comparer_on_keys [OF c]) auto
  have mem: "?dec1 x \<in> set ?dec" using x by simp
  have 1: "filter (\<lambda>y. cmp (k y) (k x) = 0) (map itemValue ?srt) =
        map itemValue (filter (\<lambda>d. cmp (k (itemValue d)) (k x) = 0) ?srt)"
    by (simp only: filter_map comp_def)
  have 2: "filter (\<lambda>d. cmp (k (itemValue d)) (k x) = 0) ?srt = filter (\<lambda>d. ?f d (?dec1 x) = 0) ?srt"
  proof (rule filter_cong [OF refl])
    fix d assume "d \<in> set ?srt"
    then have "sortBy d = k (itemValue d)" by (rule decorated_key)
    then show "(cmp (k (itemValue d)) (k x) = 0) = (cmp (sortBy d) (sortBy (?dec1 x)) = 0)" by simp
  qed
  have 3: "filter (\<lambda>d. ?f d (?dec1 x) = 0) ?srt = filter (\<lambda>d. ?f d (?dec1 x) = 0) ?dec"
    by (rule filter_ties_insertion_sort [OF cf mem subset_refl])
  have 4: "map itemValue (filter (\<lambda>d. ?f d (?dec1 x) = 0) ?dec) = filter (\<lambda>y. cmp (k y) (k x) = 0) xs"
    by (induction xs) simp_all
  show ?thesis
    unfolding 1 2 3 4 ..
qed

lemma sorted_values_stable:
  assumes c: "consistent_comparer (k ` set xs) cmp"
  shows "stable_sort_of k cmp xs
           (map itemValue (insertion_sort (\<lambda>x y. cmp (sortBy x) (sortBy y))
              (map (\<lambda>x. \<lparr>sortBy = k x, itemValue = x\<rparr>) xs)))"
  unfolding stable_sort_of_def
  using decorated_count [of "\<lambda>x y. cmp (sortBy x) (sortBy y)" k xs] decorated_sorted [OF c]
    decorated_stable [OF c]
  by blast

lemma levels_answer_levels:
  "levels_answer c0 c1 x y =
     (if c0 (level_0 x) (level_0 y) \<noteq> 0 then c0 (level_0 x) (level_0 y) else c1 (level_1 x) (level_1 y))"
  by (simp add: levels_answer_def Let_def)

lemma levels_answer_tie:
  "(levels_answer c0 c1 x y = 0) = (c0 (level_0 x) (level_0 y) = 0 \<and> c1 (level_1 x) (level_1 y) = 0)"
  by (simp add: levels_answer_levels)

lemma consistent_flip:
  "consistent_comparer A f \<Longrightarrow> a \<in> A \<Longrightarrow> b \<in> A \<Longrightarrow> (f a b < 0) = (0 < f b a)"
  unfolding consistent_comparer_def by blast

lemma consistent_refl:
  "consistent_comparer A f \<Longrightarrow> a \<in> A \<Longrightarrow> f a a = 0"
  unfolding consistent_comparer_def by blast

lemma levels_answer_consistent:
  assumes c0: "consistent_comparer K0 c0" and c1: "consistent_comparer K1 c1"
  shows "consistent_comparer {l. level_0 l \<in> K0 \<and> level_1 l \<in> K1} (levels_answer c0 c1)"
    (is "consistent_comparer ?L ?T")
  unfolding consistent_comparer_def
proof (intro conjI ballI impI)
  fix a assume "a \<in> ?L"
  then show "levels_answer c0 c1 a a = 0"
    using consistent_refl [OF c0] consistent_refl [OF c1] by (simp add: levels_answer_levels)
next
  fix a b
  assume "a \<in> ?L" "b \<in> ?L"
  then have m: "level_0 a \<in> K0" "level_0 b \<in> K0" "level_1 a \<in> K1" "level_1 b \<in> K1" by simp_all
  have f0: "(c0 (level_0 a) (level_0 b) < 0) = (0 < c0 (level_0 b) (level_0 a))"
    and g0: "(c0 (level_0 b) (level_0 a) < 0) = (0 < c0 (level_0 a) (level_0 b))"
    using consistent_flip [OF c0] m by blast+
  have f1: "(c1 (level_1 a) (level_1 b) < 0) = (0 < c1 (level_1 b) (level_1 a))"
    using consistent_flip [OF c1] m by blast
  from f0 g0 have z: "(c0 (level_0 a) (level_0 b) = 0) = (c0 (level_0 b) (level_0 a) = 0)" by linarith
  show "(levels_answer c0 c1 a b < 0) = (0 < levels_answer c0 c1 b a)"
    using f0 f1 z by (simp add: levels_answer_levels)
next
  fix a b d
  assume "a \<in> ?L" "b \<in> ?L" "d \<in> ?L"
  then have m0: "level_0 a \<in> K0" "level_0 b \<in> K0" "level_0 d \<in> K0"
    and m1: "level_1 a \<in> K1" "level_1 b \<in> K1" "level_1 d \<in> K1" by simp_all
  assume ab: "levels_answer c0 c1 a b \<le> 0" and bd: "levels_answer c0 c1 b d \<le> 0"
  let ?a0 = "level_0 a" and ?b0 = "level_0 b" and ?d0 = "level_0 d"
  let ?a1 = "level_1 a" and ?b1 = "level_1 b" and ?d1 = "level_1 d"
  from ab have ab0: "c0 ?a0 ?b0 \<le> 0" by (simp add: levels_answer_levels split: if_splits)
  from bd have bd0: "c0 ?b0 ?d0 \<le> 0" by (simp add: levels_answer_levels split: if_splits)
  have ad0: "c0 ?a0 ?d0 \<le> 0" using consistent_trans [OF c0 m0(1) m0(2) m0(3) ab0 bd0] .
  show "levels_answer c0 c1 a d \<le> 0"
  proof (cases "c0 ?a0 ?d0 = 0")
    case False
    with ad0 show ?thesis by (simp add: levels_answer_levels)
  next
    case True
    have da0: "c0 ?d0 ?a0 = 0" using consistent_tie_sym [OF c0 m0(1) m0(3) True] .
    have ba0: "c0 ?b0 ?a0 \<le> 0" using consistent_trans [OF c0 m0(2) m0(3) m0(1) bd0] da0 by simp
    have db0: "c0 ?d0 ?b0 \<le> 0" using consistent_trans [OF c0 m0(3) m0(1) m0(2) _ ab0] da0 by simp
    have "\<not> c0 ?a0 ?b0 < 0" using consistent_flip [OF c0 m0(1) m0(2)] ba0 by simp
    with ab0 have ab00: "c0 ?a0 ?b0 = 0" by simp
    have "\<not> c0 ?b0 ?d0 < 0" using consistent_flip [OF c0 m0(2) m0(3)] db0 by simp
    with bd0 have bd00: "c0 ?b0 ?d0 = 0" by simp
    from ab ab00 have ab1: "c1 ?a1 ?b1 \<le> 0" by (simp add: levels_answer_levels)
    from bd bd00 have bd1: "c1 ?b1 ?d1 \<le> 0" by (simp add: levels_answer_levels)
    have "c1 ?a1 ?d1 \<le> 0" using consistent_trans [OF c1 m1(1) m1(2) m1(3) ab1 bd1] .
    with True show ?thesis by (simp add: levels_answer_levels)
  qed
qed

lemma consistent_comparer_subset:
  "consistent_comparer B f \<Longrightarrow> A \<subseteq> B \<Longrightarrow> consistent_comparer A f"
  unfolding consistent_comparer_def by (meson subsetD)

lemma Array_sort_insert_answers:
  assumes "\<forall>a\<in>A. \<forall>b\<in>A. cmp a b = Inr (f a b)" and "x \<in> A"
  shows "set ys \<subseteq> A \<Longrightarrow> Array_sort_insert cmp x ys = Inr (ordered_insert f x ys)"
proof (induction ys)
  case Nil
  then show ?case by simp
next
  case (Cons y ys)
  from Cons.prems have "y \<in> A" and rest: "set ys \<subseteq> A" by auto
  with assms have "cmp x y = Inr (f x y)" by blast
  with Cons.IH [OF rest] show ?case by simp
qed

lemma Array_sort_answers:
  assumes "\<forall>a\<in>A. \<forall>b\<in>A. cmp a b = Inr (f a b)"
  shows "set xs \<subseteq> A \<Longrightarrow> Array_sort cmp xs = Inr (insertion_sort f xs)"
proof (induction xs)
  case Nil
  then show ?case by (simp add: insertion_sort_Nil)
next
  case (Cons x xs)
  from Cons.prems have xA: "x \<in> A" and rest: "set xs \<subseteq> A" by auto
  have "set (insertion_sort f xs) \<subseteq> A" using rest by (simp add: set_insertion_sort)
  from Array_sort_insert_answers [OF assms xA this] Cons.IH [OF rest]
  show ?case by (simp add: insertion_sort_Cons)
qed

lemma Array_map_selects:
  "selects xs selector k \<Longrightarrow>
     Array_map (\<lambda>x. case selector x of Inl e \<Rightarrow> Inl e | Inr key \<Rightarrow> Inr \<lparr>sortBy = key, itemValue = x\<rparr>) xs
       = Inr (map (\<lambda>x. \<lparr>sortBy = k x, itemValue = x\<rparr>) xs)"
  unfolding selects_def by (induction xs) simp_all

lemma answers_on_keys:
  assumes "answers K cmp c" and "\<forall>d\<in>A. g d \<in> K"
  shows "\<forall>a\<in>A. \<forall>b\<in>A. cmp (g a) (g b) = Inr (c (g a) (g b))"
  using assms unfolding answers_def by blast

lemma new_OrderedEnumerable_Yields:
  assumes s: "selects xs selector k"
    and a: "answers (k ` set xs) (toComparerSafe strict_eq js_less comparer) c"
  shows "new_OrderedEnumerable strict_eq js_less (map Yields xs) selector comparer =
     Inr \<lparr>wrapped_sequence =
            map Yields (map itemValue
              (insertion_sort (\<lambda>x y. c (sortBy x) (sortBy y))
                (map (\<lambda>x. \<lparr>sortBy = k x, itemValue = x\<rparr>) xs))),
          originalItems = xs,
          orderComparer = toComparerSafe strict_eq js_less comparer,
          orderSelector = selector\<rparr>"
proof -
  let ?dec = "map (\<lambda>x. \<lparr>sortBy = k x, itemValue = x\<rparr>) xs"
  let ?cmp = "toComparerSafe strict_eq js_less comparer"
  have "\<forall>a\<in>set ?dec. \<forall>b\<in>set ?dec. ?cmp (sortBy a) (sortBy b) = Inr (c (sortBy a) (sortBy b))"
    by (rule answers_on_keys [OF a]) auto
  then have srt: "Array_sort (\<lambda>x y. ?cmp (sortBy x) (sortBy y)) ?dec
      = Inr (insertion_sort (\<lambda>x y. c (sortBy x) (sortBy y)) ?dec)"
    by (rule Array_sort_answers) simp
  show ?thesis
    unfolding new_OrderedEnumerable_def Let_def toArray_map_Yields sum.case Array_map_selects [OF s] srt
    by simp
qed

lemma thenBy_comparer_answers:
  assumes "answers K0 cmp0 c0" and "answers K1 cmp1 c1"
  shows "answers {l. level_0 l \<in> K0 \<and> level_1 l \<in> K1} (thenBy_comparer cmp0 cmp1) (levels_answer c0 c1)"
  using assms unfolding answers_def thenBy_comparer_def levels_answer_def by simp

lemma answers_subset: "answers B cmp c \<Longrightarrow> A \<subseteq> B \<Longrightarrow> answers A cmp c"
  unfolding answers_def by blast

lemma thenBy_comparer_closed:
  "thenBy_comparer cmp0 cmp1 a b =
     (case cmp0 (level_0 a) (level_0 b) of
        Inl e \<Rightarrow> Inl e
      | Inr v \<Rightarrow> if v \<noteq> 0 then Inr v else cmp1 (level_1 a) (level_1 b))"
  by (simp add: thenBy_comparer_def split: sum.splits)

lemma thenBy_comparer_zero:
  "(thenBy_comparer cmp0 cmp1 a b = Inr 0)
     = (cmp0 (level_0 a) (level_0 b) = Inr 0 \<and> cmp1 (level_1 a) (level_1 b) = Inr 0)"
  by (auto simp: thenBy_comparer_def split: sum.splits if_splits)

text \<open>
  C2 (as amended). Let the selector give a key for every element of the finite sequence
  \<open>xs\<close> and the comparer in force answer on these keys, neither throwing, and let the
  answers be consistent. Then \<^verbatim>\<open>orderBy(selector, comparer)\<close> keeps \<open>xs\<close> as its original
  items, and its \<^verbatim>\<open>toArray()\<close> is a stable sort of \<open>xs\<close>: the same elements, in an order in
  which none comes before one it follows, and those whose keys tie in the order they have
  in \<open>xs\<close>. \<^verbatim>\<open>thenBy(selector1, comparer1)\<close> on any ordered sequence keeps its original items
  and sorts them (not the sorted output) by the composite key \<^verbatim>\<open>{level_0, level_1}\<close> of the
  previous key and the new one, with the composite comparer: the result of the previous
  comparer when that is not 0, the result of the new comparer otherwise, hence 0 only
  when both answer 0. When both levels answer consistently without throwing, the result
  is again a stable sort of the original items, and the composite selector and comparer
  again answer consistently on the composite keys, so that the same holds for the next
  \<^verbatim>\<open>thenBy\<close>, at every level.
\<close>

theorem orderBy_stable_thenBy_levels:
  "(selects xs selector k
      \<and> answers (k ` set xs) (toComparerSafe strict_eq js_less comparer) c
      \<and> consistent_comparer (k ` set xs) c \<longrightarrow>
      (\<exists>oe ys. orderBy strict_eq js_less selector comparer (map Yields xs) = Inr oe
          \<and> originalItems oe = xs \<and> orderSelector oe = selector
          \<and> orderComparer oe = toComparerSafe strict_eq js_less comparer
          \<and> toArray (wrapped_sequence oe) = Inr ys
          \<and> stable_sort_of k c xs ys))
   \<and> (selects (originalItems this) (orderSelector this) k0
       \<and> answers (k0 ` set (originalItems this)) (orderComparer this) c0
       \<and> consistent_comparer (k0 ` set (originalItems this)) c0
       \<and> selects (originalItems this) selector1 k1
       \<and> answers (k1 ` set (originalItems this)) (toComparerSafe strict_eq1 js_less1 comparer1) c1
       \<and> consistent_comparer (k1 ` set (originalItems this)) c1 \<longrightarrow>
      (\<exists>oe zs. thenBy strict_eq1 js_less1 selector1 comparer1 this = Inr oe
          \<and> originalItems oe = originalItems this
          \<and> orderComparer oe =
                thenBy_comparer (orderComparer this) (toComparerSafe strict_eq1 js_less1 comparer1)
          \<and> selects (originalItems oe) (orderSelector oe) (\<lambda>x. \<lparr>level_0 = k0 x, level_1 = k1 x\<rparr>)
          \<and> answers ((\<lambda>x. \<lparr>level_0 = k0 x, level_1 = k1 x\<rparr>) ` set (originalItems oe))
                (orderComparer oe) (levels_answer c0 c1)
          \<and> consistent_comparer ((\<lambda>x. \<lparr>level_0 = k0 x, level_1 = k1 x\<rparr>) ` set (originalItems oe))
                (levels_answer c0 c1)
          \<and> toArray (wrapped_sequence oe) = Inr zs
          \<and> stable_sort_of (\<lambda>x. \<lparr>level_0 = k0 x, level_1 = k1 x\<rparr>) (levels_answer c0 c1)
                (originalItems this) zs))
   \<and> thenBy_comparer cmp0 cmp1 a b =
       (case cmp0 (level_0 a) (level_0 b) of
          Inl e \<Rightarrow> Inl e
        | Inr v \<Rightarrow> if v \<noteq> 0 then Inr v else cmp1 (level_1 a) (level_1 b))
   \<and> (thenBy_comparer cmp0 cmp1 a b = Inr 0)
       = (cmp0 (level_0 a) (level_0 b) = Inr 0 \<and> cmp1 (level_1 a) (level_1 b) = Inr 0)"
proof -
  have part1: "\<exists>oe ys. orderBy strict_eq js_less selector comparer (map Yields xs) = Inr oe
          \<and> originalItems oe = xs \<and> orderSelector oe = selector
          \<and> orderComparer oe = toComparerSafe strict_eq js_less comparer
          \<and> toArray (wrapped_sequence oe) = Inr ys
          \<and> stable_sort_of k c xs ys"
    if s: "selects xs selector k"
      and a: "answers (k ` set xs) (toComparerSafe strict_eq js_less comparer) c"
      and c: "consistent_comparer (k ` set xs) c"
    using sorted_values_stable [OF c]
    by (simp add: orderBy_def new_OrderedEnumerable_Yields [OF s a] toArray_map_Yields del: map_map)
  have part2: "\<exists>oe zs. thenBy strict_eq1 js_less1 selector1 comparer1 this = Inr oe
          \<and> originalItems oe = originalItems this
          \<and> orderComparer oe =
                thenBy_comparer (orderComparer this) (toComparerSafe strict_eq1 js_less1 comparer1)
          \<and> selects (originalItems oe) (orderSelector oe) (\<lambda>x. \<lparr>level_0 = k0 x, level_1 = k1 x\<rparr>)
          \<and> answers ((\<lambda>x. \<lparr>level_0 = k0 x, level_1 = k1 x\<rparr>) ` set (originalItems oe))
                (orderComparer oe) (levels_answer c0 c1)
          \<and> consistent_comparer ((\<lambda>x. \<lparr>level_0 = k0 x, level_1 = k1 x\<rparr>) ` set (originalItems oe))
                (levels_answer c0 c1)
          \<and> toArray (wrapped_sequence oe) = Inr zs
          \<and> stable_sort_of (\<lambda>x. \<lparr>level_0 = k0 x, level_1 = k1 x\<rparr>) (levels_answer c0 c1)
                (originalItems this) zs"
    if s0: "selects (originalItems this) (orderSelector this) k0"
      and a0: "answers (k0 ` set (originalItems this)) (orderComparer this) c0"
      and c0: "consistent_comparer (k0 ` set (originalItems this)) c0"
      and s1: "selects (originalItems this) selector1 k1"
      and a1: "answers (k1 ` set (originalItems this)) (toComparerSafe strict_eq1 js_less1 comparer1) c1"
      and c1: "consistent_comparer (k1 ` set (originalItems this)) c1"
  proof -
    let ?items = "originalItems this"
    let ?kk = "\<lambda>x. \<lparr>level_0 = k0 x, level_1 = k1 x\<rparr>"
    let ?sel = "\<lambda>x. case orderSelector this x of
                   Inl e \<Rightarrow> Inl e
                 | Inr key_0 \<Rightarrow>
                     (case selector1 x of
                        Inl e \<Rightarrow> Inl e
                      | Inr key_1 \<Rightarrow> Inr \<lparr>level_0 = key_0, level_1 = key_1\<rparr>)"
    let ?cmp = "thenBy_comparer (orderComparer this) (toComparerSafe strict_eq1 js_less1 comparer1)"
    have sel: "selects ?items ?sel ?kk"
      using s0 s1 unfolding selects_def by simp
    have ans: "answers (?kk ` set ?items) ?cmp (levels_answer c0 c1)"
      by (rule answers_subset [OF thenBy_comparer_answers [OF a0 a1]]) auto
    have ans': "answers (?kk ` set ?items) (toComparerSafe (\<lambda>x y. False) (\<lambda>x y. Inr False) (Some ?cmp))
        (levels_answer c0 c1)"
      using ans by (simp add: toComparerSafe_def)
    have cons: "consistent_comparer (?kk ` set ?items) (levels_answer c0 c1)"
      by (rule consistent_comparer_subset [OF levels_answer_consistent [OF c0 c1]]) auto
    have eq: "thenBy strict_eq1 js_less1 selector1 comparer1 this =
        new_OrderedEnumerable (\<lambda>x y. False) (\<lambda>x y. Inr False) (map Yields ?items) ?sel (Some ?cmp)"
      by (simp add: thenBy_def orderBy_def Let_def)
    show ?thesis
      unfolding eq new_OrderedEnumerable_Yields [OF sel ans']
      using sorted_values_stable [OF cons] sel ans cons
      by (simp add: toArray_map_Yields toComparerSafe_def del: map_map)
  qed
  from part1 part2 thenBy_comparer_closed [of cmp0 cmp1 a b] thenBy_comparer_zero [of cmp0 cmp1 a b]
  show ?thesis by blast
qed

theorem orderBy_stable_thenBy_levels_witness:
  "selects [(2 :: int, 0 :: int), (1, 1), (1, 0)] (\<lambda>x. Inr (fst x)) fst
   \<and> answers (fst ` set [(2 :: int, 0 :: int), (1, 1), (1, 0)]) (toComparerSafe (=) (\<lambda>x y. Inr (x < y)) None)
        (\<lambda>x y. if x = y then 0 else if x < y then - 1 else 1)
   \<and> consistent_comparer (fst ` set [(2 :: int, 0 :: int), (1, 1), (1, 0)])
        (\<lambda>x y. if x = y then 0 else if x < y then - 1 else 1)
   \<and> (case orderBy (=) (\<lambda>x y. Inr (x < y)) (\<lambda>x. Inr (fst x)) None (map Yields [(2 :: int, 0 :: int), (1, 1), (1, 0)]) of
         Inl e \<Rightarrow> Inl e
       | Inr oe \<Rightarrow> toArray (wrapped_sequence oe)) = Inr [(1 :: int, 1 :: int), (1, 0), (2, 0)]
   \<and> (case orderBy (=) (\<lambda>x y. Inr (x < y)) (\<lambda>x. Inr (fst x)) None (map Yields [(2 :: int, 0 :: int), (1, 1), (1, 0)]) of
         Inl e \<Rightarrow> Inl e
       | Inr oe \<Rightarrow>
           (case thenBy (=) (\<lambda>x y. Inr (x < y)) (\<lambda>x. Inr (snd x)) None oe of
              Inl e \<Rightarrow> Inl e
            | Inr oe' \<Rightarrow> toArray (wrapped_sequence oe'))) = Inr [(1 :: int, 0 :: int), (1, 1), (2, 0)]
   \<and> (case orderBy (=) (\<lambda>x y. Inr (x < y)) (\<lambda>x. Inr (fst x)) None (map Yields [(1 :: int, ''a''), (1, ''b'')]) of
         Inl e \<Rightarrow> Inl e
       | Inr oe \<Rightarrow> toArray (wrapped_sequence oe)) = Inr [(1, ''a''), (1, ''b'')]"
proof -
  let ?xs = "[(2 :: int, 0 :: int), (1, 1), (1, 0)] :: (int \<times> int) list"
  let ?less = "\<lambda>x y :: int. Inr (x < y) :: error + bool"
  let ?dflt = "toComparerSafe (=) ?less None"
  let ?c = "\<lambda>x y :: int. if x = y then 0 else if x < y then - 1 else 1 :: int"
  let ?oe0 = "\<lparr>wrapped_sequence = map Yields [(1 :: int, 1 :: int), (1, 0), (2, 0)],
               originalItems = ?xs, orderComparer = ?dflt, orderSelector = (\<lambda>x. Inr (fst x))\<rparr>"
  have s0: "selects ?xs (\<lambda>x. Inr (fst x)) fst" and s1: "selects ?xs (\<lambda>x. Inr (snd x)) snd"
    by (simp_all add: selects_def)
  have a0: "answers (fst ` set ?xs) ?dflt ?c" and a1: "answers (snd ` set ?xs) ?dflt ?c"
    by (simp_all add: answers_def toComparerSafe_def)
  have c0: "consistent_comparer (fst ` set ?xs) ?c" and c1: "consistent_comparer (snd ` set ?xs) ?c"
    by (simp_all add: consistent_comparer_def)
  have a: "orderBy (=) ?less (\<lambda>x. Inr (fst x)) None (map Yields ?xs) = Inr ?oe0"
    by (simp add: orderBy_def new_OrderedEnumerable_def toComparerSafe_def)
  have s0': "selects (originalItems ?oe0) (orderSelector ?oe0) fst"
    and a0': "answers (fst ` set (originalItems ?oe0)) (orderComparer ?oe0) ?c"
    and c0': "consistent_comparer (fst ` set (originalItems ?oe0)) ?c"
    and s1': "selects (originalItems ?oe0) (\<lambda>x. Inr (snd x)) snd"
    and a1': "answers (snd ` set (originalItems ?oe0)) ?dflt ?c"
    and c1': "consistent_comparer (snd ` set (originalItems ?oe0)) ?c"
    using s0 s1 a0 a1 c0 c1 by simp_all
  note inst = orderBy_stable_thenBy_levels [of ?xs "\<lambda>x. Inr (fst x)" fst "(=)" ?less None ?c
      ?oe0 fst ?c "\<lambda>x. Inr (snd x)" snd "(=)" ?less None ?c]
  from inst s0 a0 c0 s0' a0' c0' s1' a1' c1' obtain oe ys where
    used: "orderBy (=) ?less (\<lambda>x. Inr (fst x)) None (map Yields ?xs) = Inr oe" "toArray (wrapped_sequence oe) = Inr ys"
    by blast
  have b: "(case thenBy (=) ?less (\<lambda>x. Inr (snd x)) None ?oe0 of Inl e \<Rightarrow> Inl e | Inr oe' \<Rightarrow> toArray (wrapped_sequence oe'))
      = Inr [(1 :: int, 0 :: int), (1, 1), (2, 0)]"
    by (simp add: thenBy_def orderBy_def new_OrderedEnumerable_def toComparerSafe_def
        thenBy_comparer_def Let_def)
  have d: "(case orderBy (=) ?less (\<lambda>x. Inr (fst x)) None (map Yields [(1 :: int, ''a''), (1, ''b'')]) of
         Inl e \<Rightarrow> Inl e | Inr oe \<Rightarrow> toArray (wrapped_sequence oe)) = Inr [(1, ''a''), (1, ''b'')]"
    by (simp add: orderBy_def new_OrderedEnumerable_def toComparerSafe_def)
  have e1: "(case orderBy (=) ?less (\<lambda>x. Inr (fst x)) None (map Yields ?xs) of
         Inl e \<Rightarrow> Inl e
       | Inr oe \<Rightarrow> toArray (wrapped_sequence oe)) = Inr [(1 :: int, 1 :: int), (1, 0), (2, 0)]"
    unfolding a by (simp add: toArray_map_Yields)
  have e2: "(case orderBy (=) ?less (\<lambda>x. Inr (fst x)) None (map Yields ?xs) of
         Inl e \<Rightarrow> Inl e
       | Inr oe \<Rightarrow>
           (case thenBy (=) ?less (\<lambda>x. Inr (snd x)) None oe of
              Inl e \<Rightarrow> Inl e
            | Inr oe' \<Rightarrow> toArray (wrapped_sequence oe'))) = Inr [(1 :: int, 0 :: int), (1, 1), (2, 0)]"
    unfolding a sum.case by (rule b)
  from used s0 a0 c0 e1 e2 d show ?thesis by blast
qed

lemma undefined_key_no_stable_sort:
  assumes "stable_sort_of (\<lambda>x. x) c [Value 2, Undefined, Value (1 :: int)] ys"
    and "c (Value 2) Undefined = 0" and "c Undefined Undefined = 0" and "c (Value 1) Undefined = 0"
  shows "c (Value 2) (Value 1) \<le> 0"
proof -
  let ?xs = "[Value 2, Undefined, Value (1 :: int)]"
  let ?R = "\<lambda>a b. c a b \<le> 0"
  from assms(1) have srt: "sorted_wrt ?R ys"
    and ties: "filter (\<lambda>y. c y Undefined = 0) ys = filter (\<lambda>y. c y Undefined = 0) ?xs"
    unfolding stable_sort_of_def by simp_all
  from ties assms(2-4) have "filter (\<lambda>y. c y Undefined = 0) ys = ?xs" by simp
  moreover have "sorted_wrt ?R (filter (\<lambda>y. c y Undefined = 0) ys)"
    using srt by (rule sorted_wrt_filter)
  ultimately have "sorted_wrt ?R ?xs" by simp
  then show ?thesis by simp
qed

theorem orderBy_undefined_key_counterexample:
  "(case orderBy (=) int_less (\<lambda>x. Inr x) None (map Yields [Value 2, Undefined, Value 1]) of
      Inl e \<Rightarrow> Inl e
    | Inr oe \<Rightarrow> toArray (wrapped_sequence oe)) = Inr [Value 2, Undefined, Value 1]
   \<and> toComparerSafe (=) int_less None (Value 2) (Value 1) = Inr 1
   \<and> toComparerSafe (=) int_less None (Value 2) Undefined = Inr 0
   \<and> toComparerSafe (=) int_less None Undefined (Value 1) = Inr 0
   \<and> \<not> (\<exists>ys. stable_sort_of (\<lambda>x. x)
              (\<lambda>a b. case toComparerSafe (=) int_less None a b of Inl e \<Rightarrow> 0 | Inr v \<Rightarrow> v)
              [Value 2, Undefined, Value 1] ys)"
proof -
  let ?c = "\<lambda>a b. case toComparerSafe (=) int_less None a b of Inl e \<Rightarrow> 0 | Inr v \<Rightarrow> v"
  have out: "(case orderBy (=) int_less (\<lambda>x. Inr x) None (map Yields [Value 2, Undefined, Value 1]) of
      Inl e \<Rightarrow> Inl e
    | Inr oe \<Rightarrow> toArray (wrapped_sequence oe)) = Inr [Value 2, Undefined, Value 1]"
    by (simp add: orderBy_def new_OrderedEnumerable_def toComparerSafe_def int_less_def)
  have cmp: "toComparerSafe (=) int_less None (Value 2) (Value 1) = Inr 1"
    "toComparerSafe (=) int_less None (Value 2) Undefined = Inr 0"
    "toComparerSafe (=) int_less None Undefined (Value 1) = Inr 0"
    by (simp_all add: toComparerSafe_def int_less_def)
  have none: "\<not> (\<exists>ys. stable_sort_of (\<lambda>x. x) ?c [Value 2, Undefined, Value 1] ys)"
  proof
    assume "\<exists>ys. stable_sort_of (\<lambda>x. x) ?c [Value 2, Undefined, Value 1] ys"
    then obtain ys where "stable_sort_of (\<lambda>x. x) ?c [Value 2, Undefined, Value 1] ys" ..
    from undefined_key_no_stable_sort [OF this]
    have "?c (Value 2) (Value 1) \<le> 0"
      by (simp add: toComparerSafe_def int_less_def)
    then show False by (simp add: toComparerSafe_def int_less_def)
  qed
  from out cmp none show ?thesis by blast
qed

lemma ArrayEnumerable_values_drop:
  "- 1 \<le> index this \<Longrightarrow>
     fst (ArrayEnumerable_values this) = map Some (drop (nat (index this + 1)) (array this))"
proof (induction this rule: ArrayEnumerable_values.induct)
  case (1 this)
  let ?i = "index this + 1"
  show ?case
  proof (cases "?i \<ge> int (length (array this))")
    case True
    then show ?thesis
      by (subst ArrayEnumerable_values.simps) (simp add: ArrayEnumerable_next_def Let_def)
  next
    case False
    let ?r = "\<lparr>result_done = False, result_value = Some (array this ! nat ?i)\<rparr>"
    let ?ex' = "this\<lparr>index := ?i, current := Some ?r\<rparr>"
    have nx: "ArrayEnumerable_next this = (?r, ?ex')"
      using False "1.prems" by (simp add: ArrayEnumerable_next_def Let_def)
    have IH: "fst (ArrayEnumerable_values ?ex') = map Some (drop (nat (?i + 1)) (array this))"
      using "1.IH" [OF nx [symmetric]] "1.prems" by simp
    have lt: "nat ?i < length (array this)" using False "1.prems" by linarith
    have dr: "drop (nat ?i) (array this) = array this ! nat ?i # drop (nat (?i + 1)) (array this)"
    proof -
      have e: "nat (?i + 1) = Suc (nat ?i)" using "1.prems" by linarith
      show ?thesis unfolding e by (rule Cons_nth_drop_Suc [OF lt, symmetric])
    qed
    have "fst (ArrayEnumerable_values this) = Some (array this ! nat ?i) # fst (ArrayEnumerable_values ?ex')"
      by (subst ArrayEnumerable_values.simps) (simp add: nx split: prod.splits)
    then show ?thesis
      unfolding IH dr by simp
  qed
qed

lemma ArrayEnumerable_restart:
  "fst (ArrayEnumerable_values (this\<lparr>index := - 1\<rparr>)) = map Some (array this)"
  using ArrayEnumerable_values_drop [of "this\<lparr>index := - 1\<rparr>"] by simp

lemma Generator_keeps_done: "keeps_done (Generator_next body)"
  unfolding keeps_done_def
proof (intro allI impI)
  fix g :: "'a Generator"
  assume d: "answers_done (fst (Generator_next body g))"
  have "snd (Generator_next body g) = Completed"
    using d by (auto simp: Generator_next_def answers_done_def split: Generator.splits sum.splits option.splits)
  then show "answers_done (fst (Generator_next body (snd (Generator_next body g))))"
    by (simp add: Generator_next_def answers_done_def)
qed

lemma IteratorEnumerable_next_done_iff:
  "(\<exists>r. fst (IteratorEnumerable_next it_next this) = Inr r \<and> result_done r)
     = answers_done (fst (it_next (iterator this)))"
  by (cases "it_next (iterator this)")
    (auto simp: IteratorEnumerable_next_def answers_done_def Let_def split: sum.splits option.splits)

lemma IteratorEnumerable_next_iterator:
  "iterator (snd (IteratorEnumerable_next it_next this)) = snd (it_next (iterator this))"
  by (cases "it_next (iterator this)")
    (auto simp: IteratorEnumerable_next_def Let_def split: sum.splits option.splits)

lemma IteratorEnumerable_next_done_index:
  "fst (IteratorEnumerable_next it_next this) = Inr r \<Longrightarrow> result_done r \<Longrightarrow>
     index (snd (IteratorEnumerable_next it_next this)) = index this"
  by (cases "it_next (iterator this)")
    (auto simp: IteratorEnumerable_next_def Let_def split: sum.splits option.splits)

lemma IteratorEnumerable_exhausted:
  assumes k: "keeps_done it_next"
    and d: "answers_done (fst (it_next (iterator this)))"
  shows "(\<exists>r. fst (IteratorEnumerable_next it_next (after_pulls it_next n this)) = Inr r \<and> result_done r)
           \<and> index (snd (IteratorEnumerable_next it_next (after_pulls it_next n this))) = index this"
  using d
proof (induction n arbitrary: this)
  case 0
  then obtain r where r: "fst (IteratorEnumerable_next it_next this) = Inr r" "result_done r"
    using IteratorEnumerable_next_done_iff [of it_next this] by blast
  with IteratorEnumerable_next_done_index [OF r] show ?case by simp
next
  case (Suc n)
  let ?ex' = "snd (IteratorEnumerable_next it_next this)"
  from Suc.prems obtain r where r: "fst (IteratorEnumerable_next it_next this) = Inr r" "result_done r"
    using IteratorEnumerable_next_done_iff [of it_next this] by blast
  have d': "answers_done (fst (it_next (iterator ?ex')))"
    using k Suc.prems unfolding keeps_done_def IteratorEnumerable_next_iterator by blast
  have same: "index ?ex' = index this" by (rule IteratorEnumerable_next_done_index [OF r])
  from Suc.IH [OF d'] same show ?case by simp
qed

lemma ArrayEnumerable_next_exhausted:
  "result_done (fst (ArrayEnumerable_next a))
     \<Longrightarrow> result_done (fst (ArrayEnumerable_next (snd (ArrayEnumerable_next a))))"
  by (simp add: ArrayEnumerable_next_def Let_def split: if_splits)

text \<open>
  C9 (as amended). An \<^verbatim>\<open>IteratorEnumerable\<close> forwards every pull to its iterator. Over an
  iterator that keeps signalling done, once a pull has signalled done, the pull after any
  number \<open>n\<close> of further pulls signals done again, and \<^verbatim>\<open>_index\<close> no longer moves. Every generator
  object is such an iterator, whatever its body. Such a sequence cannot be reset:
  \<^verbatim>\<open>canReset\<close> is false and \<^verbatim>\<open>reset()\<close> throws. An array-backed sequence can: \<^verbatim>\<open>reset()\<close> sets
  \<^verbatim>\<open>_index\<close> to -1 and changes nothing else, iterating it afterwards gives every element of
  the array from the first, and without a reset an exhausted one stays exhausted.
\<close>

theorem exhaustion_kept_reset_restarts:
  assumes "keeps_done it_next"
    and "fst (IteratorEnumerable_next it_next this) = Inr r" and "result_done r"
  shows "(\<exists>r'. fst (IteratorEnumerable_next it_next (after_pulls it_next n this)) = Inr r' \<and> result_done r')
     \<and> index (snd (IteratorEnumerable_next it_next (after_pulls it_next n this))) = index this
     \<and> keeps_done (Generator_next body)
     \<and> EnumerableBase_canReset this = False \<and> EnumerableBase_reset this = Inl NotSupported
     \<and> ArrayEnumerable_canReset a \<and> ArrayEnumerable_reset a = Inr (a\<lparr>index := - 1\<rparr>)
     \<and> fst (ArrayEnumerable_values (a\<lparr>index := - 1\<rparr>)) = map Some (array a)
     \<and> (result_done (fst (ArrayEnumerable_next a))
          \<longrightarrow> result_done (fst (ArrayEnumerable_next (snd (ArrayEnumerable_next a)))))"
proof -
  have d: "answers_done (fst (it_next (iterator this)))"
    using assms(2,3) IteratorEnumerable_next_done_iff [of it_next this] by blast
  note sticky = IteratorEnumerable_exhausted [OF assms(1) d, of n]
  have reset: "ArrayEnumerable_canReset a" "ArrayEnumerable_reset a = Inr (a\<lparr>index := - 1\<rparr>)"
    by (simp_all add: ArrayEnumerable_canReset_def ArrayEnumerable_reset_def)
  have base: "EnumerableBase_canReset this = False" "EnumerableBase_reset this = Inl NotSupported"
    by (simp_all add: EnumerableBase_canReset_def EnumerableBase_reset_def)
  show ?thesis
    using sticky Generator_keeps_done [of body] base reset ArrayEnumerable_restart [of a]
      ArrayEnumerable_next_exhausted [of a]
    by blast
qed

theorem exhaustion_kept_reset_restarts_witness:
  "keeps_done (Generator_next rangeInner_body)
   \<and> fst (IteratorEnumerable_next (Generator_next rangeInner_body)
        (after_pulls (Generator_next rangeInner_body) 2 (new_IteratorEnumerable (Suspended (0, Some 2)))))
       = Inr \<lparr>result_done = True, result_value = None\<rparr>
   \<and> index (after_pulls (Generator_next rangeInner_body) 2 (new_IteratorEnumerable (Suspended (0, Some 2)))) = 1
   \<and> (\<exists>r'. fst (IteratorEnumerable_next (Generator_next rangeInner_body)
         (after_pulls (Generator_next rangeInner_body) 5 (new_IteratorEnumerable (Suspended (0, Some 2))))) = Inr r'
         \<and> result_done r')
   \<and> index (after_pulls (Generator_next rangeInner_body) 6 (new_IteratorEnumerable (Suspended (0, Some 2)))) = 1
   \<and> ArrayEnumerable_reset (snd (ArrayEnumerable_values (new_ArrayEnumerable (Some [10, 20 :: int]))))
       = Inr \<lparr>current = Some \<lparr>result_done = True, result_value = None\<rparr>, index = - 1, array = [10, 20]\<rparr>
   \<and> fst (ArrayEnumerable_values \<lparr>current = Some \<lparr>result_done = True, result_value = None\<rparr>,
                                  index = - 1, array = [10, 20 :: int]\<rparr>) = [Some 10, Some 20]"
proof -
  let ?next = "Generator_next rangeInner_body"
  let ?ex = "after_pulls ?next 2 (new_IteratorEnumerable (Suspended (0, Some 2)))"
  let ?a = "\<lparr>current = Some \<lparr>result_done = True, result_value = None\<rparr>, index = 1, array = [10, 20 :: int]\<rparr>"
  have this_eq: "?ex = \<lparr>current = Some \<lparr>result_done = False, result_value = Some 1\<rparr>, index = 1,
                           iterator = Suspended (2, Some 0)\<rparr>"
    by (simp add: eval_nat_numeral new_IteratorEnumerable_def IteratorEnumerable_next_def
        Generator_next_def rangeInner_body_def Let_def)
  have h1: "keeps_done ?next" by (rule Generator_keeps_done)
  have h2: "fst (IteratorEnumerable_next ?next ?ex) = Inr \<lparr>result_done = True, result_value = None\<rparr>"
    unfolding this_eq
    by (simp add: IteratorEnumerable_next_def Generator_next_def rangeInner_body_def Let_def)
  have h3: "result_done \<lparr>result_done = True, result_value = (None :: int option)\<rparr>" by simp
  have after: "after_pulls ?next 5 (new_IteratorEnumerable (Suspended (0, Some 2))) = after_pulls ?next 3 ?ex"
    by (simp add: eval_nat_numeral)
  have after': "after_pulls ?next 6 (new_IteratorEnumerable (Suspended (0, Some 2)))
                  = snd (IteratorEnumerable_next ?next (after_pulls ?next 3 ?ex))"
    unfolding this_eq
    by (simp add: eval_nat_numeral new_IteratorEnumerable_def IteratorEnumerable_next_def
        Generator_next_def rangeInner_body_def Let_def)
  have vals: "snd (ArrayEnumerable_values (new_ArrayEnumerable (Some [10, 20 :: int]))) = ?a"
    by (simp add: new_ArrayEnumerable_def,
        subst ArrayEnumerable_values.simps, simp add: ArrayEnumerable_next_def Let_def,
        subst ArrayEnumerable_values.simps, simp add: ArrayEnumerable_next_def Let_def,
        subst ArrayEnumerable_values.simps, simp add: ArrayEnumerable_next_def Let_def)
  have idx: "index ?ex = 1" unfolding this_eq by simp
  show ?thesis
    using exhaustion_kept_reset_restarts [OF h1 h2 h3, of 3 rangeInner_body ?a] h1 h2
    unfolding after after' vals idx by simp
qed

theorem resumed_after_done_counterexample:
  "fst (IteratorEnumerable_next resuming_next (new_IteratorEnumerable 0))
     = Inr \<lparr>result_done = True, result_value = None\<rparr>
   \<and> EnumerableBase_canReset (new_IteratorEnumerable 0 :: (int, nat) IteratorEnumerable) = False
   \<and> fst (IteratorEnumerable_next resuming_next
            (snd (IteratorEnumerable_next resuming_next (new_IteratorEnumerable 0))))
     = Inr \<lparr>result_done = False, result_value = Some 7\<rparr>"
  by (simp add: new_IteratorEnumerable_def IteratorEnumerable_next_def resuming_next_def
      EnumerableBase_canReset_def Let_def)

lemma Enumerable_next_Answer:
  "Enumerable_round source_next as_value seq = Answer r seq'
     \<Longrightarrow> Enumerable_next source_next as_value seq = Some (r, seq')"
  by (subst Enumerable_next.simps) simp

lemma Enumerable_next_Again:
  "Enumerable_round source_next as_value seq = Again seq'
     \<Longrightarrow> Enumerable_next source_next as_value seq = Enumerable_next source_next as_value seq'"
  by (subst Enumerable_next.simps) simp

lemma toArray_Again:
  "Enumerable_round source_next as_value seq = Again seq'
     \<Longrightarrow> EnumerableBase_toArray source_next as_value ARR seq
           = EnumerableBase_toArray source_next as_value ARR seq'"
  by (subst EnumerableBase_toArray.simps, subst (2) EnumerableBase_toArray.simps)
    (simp add: Enumerable_next_Again)

lemma toArray_done:
  "Enumerable_round source_next as_value seq = Answer None seq'
     \<Longrightarrow> EnumerableBase_toArray source_next as_value ARR seq = Some (Inr ARR)"
  by (subst EnumerableBase_toArray.simps) (simp add: Enumerable_next_Answer)

lemma toArray_throws:
  "Enumerable_round source_next as_value seq = Answer (Some (Throws e)) seq'
     \<Longrightarrow> EnumerableBase_toArray source_next as_value ARR seq = Some (Inl e)"
  by (subst EnumerableBase_toArray.simps) (simp add: Enumerable_next_Answer)

lemma toArray_yields:
  "Enumerable_round source_next as_value seq = Answer (Some (Yields i)) seq'
     \<Longrightarrow> EnumerableBase_toArray source_next as_value ARR seq
           = EnumerableBase_toArray source_next as_value (ARR @ [i]) seq'"
  by (subst EnumerableBase_toArray.simps) (simp add: Enumerable_next_Answer)

lemma found_in_answers:
  "\<forall>t\<in>set ts. \<exists>b. comparer item t = Inr b \<Longrightarrow> \<exists>found. found_in comparer item ts = Inr found"
  by (induction ts) auto

lemma toArray_distinct_elements:
  assumes eq: "\<forall>x\<in>A. \<forall>y\<in>A. \<exists>b. comparer x y = Inr b"
  shows "set TEMP \<subseteq> A \<Longrightarrow> set xs \<subseteq> A \<Longrightarrow>
    \<exists>TEMP' ARR'.
      EnumerableBase_toArray source_next as_value ARR
          (DistinctByInner (\<lambda>x. Inr x) comparer TEMP (Outcomes (map Yields xs @ rest)))
        = EnumerableBase_toArray source_next as_value ARR'
            (DistinctByInner (\<lambda>x. Inr x) comparer TEMP' (Outcomes rest))
      \<and> set TEMP' \<subseteq> set TEMP \<union> set xs \<and> (TEMP \<noteq> [] \<or> xs \<noteq> [] \<longrightarrow> TEMP' \<noteq> [])"
proof (induction xs arbitrary: TEMP ARR)
  case Nil
  then show ?case by auto
next
  case (Cons x xs)
  from Cons.prems have xA: "x \<in> A" and xsA: "set xs \<subseteq> A" by auto
  from eq xA Cons.prems(1) have "\<forall>t\<in>set TEMP. \<exists>b. comparer x t = Inr b" by blast
  then obtain found where f: "found_in comparer x TEMP = Inr found"
    using found_in_answers [of TEMP comparer x] by blast
  let ?up = "Outcomes (map Yields xs @ rest)"
  show ?case
  proof (cases found)
    case True
    have "Enumerable_round source_next as_value
            (DistinctByInner (\<lambda>x. Inr x) comparer TEMP (Outcomes (map Yields (x # xs) @ rest)))
          = Again (DistinctByInner (\<lambda>x. Inr x) comparer TEMP ?up)"
      using f True by simp
    moreover have "TEMP \<noteq> []" using f True by (cases TEMP) auto
    ultimately show ?thesis
      using toArray_Again [of source_next as_value _ _ ARR] Cons.IH [OF Cons.prems(1) xsA, of ARR]
      by fastforce
  next
    case False
    have "Enumerable_round source_next as_value
            (DistinctByInner (\<lambda>x. Inr x) comparer TEMP (Outcomes (map Yields (x # xs) @ rest)))
          = Answer (Some (Yields x)) (DistinctByInner (\<lambda>x. Inr x) comparer (TEMP @ [x]) ?up)"
      using f False by simp
    moreover have "set (TEMP @ [x]) \<subseteq> A" using Cons.prems(1) xA by simp
    ultimately show ?thesis
      using toArray_yields [of source_next as_value _ x _ ARR] Cons.IH [of "TEMP @ [x]" "ARR @ [x]"] xsA
      by fastforce
  qed
qed

lemma toArray_distinct_array:
  assumes "\<forall>x\<in>set xs. \<forall>y\<in>set xs. \<exists>b. comparer x y = Inr b"
  shows "\<exists>arr. EnumerableBase_toArray source_next as_value []
           (DistinctByInner (\<lambda>x. Inr x) comparer [] (Outcomes (map Yields xs))) = Some (Inr arr)"
proof -
  from toArray_distinct_elements [OF assms, of "[]" xs source_next as_value "[]" "[]"]
  obtain TEMP' ARR' where
    "EnumerableBase_toArray source_next as_value []
          (DistinctByInner (\<lambda>x. Inr x) comparer [] (Outcomes (map Yields xs)))
        = EnumerableBase_toArray source_next as_value ARR'
            (DistinctByInner (\<lambda>x. Inr x) comparer TEMP' (Outcomes []))"
    by auto
  moreover have "EnumerableBase_toArray source_next as_value ARR'
            (DistinctByInner (\<lambda>x. Inr x) comparer TEMP' (Outcomes [])) = Some (Inr ARR')"
    by (rule toArray_done) simp
  ultimately show ?thesis by simp
qed

lemma toArray_distinct_pull_throws:
  assumes "\<forall>x\<in>set xs. \<forall>y\<in>set xs. \<exists>b. comparer x y = Inr b"
  shows "EnumerableBase_toArray source_next as_value []
           (DistinctByInner (\<lambda>x. Inr x) comparer [] (Outcomes (map Yields xs @ Throws e # rest))) = Some (Inl e)"
proof -
  from toArray_distinct_elements [OF assms, of "[]" xs source_next as_value "[]" "Throws e # rest"]
  obtain TEMP' ARR' where
    "EnumerableBase_toArray source_next as_value []
          (DistinctByInner (\<lambda>x. Inr x) comparer [] (Outcomes (map Yields xs @ Throws e # rest)))
        = EnumerableBase_toArray source_next as_value ARR'
            (DistinctByInner (\<lambda>x. Inr x) comparer TEMP' (Outcomes (Throws e # rest)))"
    by auto
  moreover have "EnumerableBase_toArray source_next as_value ARR'
            (DistinctByInner (\<lambda>x. Inr x) comparer TEMP' (Outcomes (Throws e # rest))) = Some (Inl e)"
    by (rule toArray_throws) simp
  ultimately show ?thesis by simp
qed

lemma found_in_throws:
  "ts \<noteq> [] \<Longrightarrow> \<forall>t\<in>set ts. comparer item t = Inl e \<Longrightarrow> found_in comparer item ts = Inl e"
  by (cases ts) simp_all

lemma toArray_distinct_comparer_throws:
  assumes "\<forall>x\<in>set xs. \<forall>y\<in>set xs. \<exists>b. comparer x y = Inr b"
    and "xs \<noteq> []" and "\<forall>v\<in>set xs. comparer w v = Inl e"
  shows "EnumerableBase_toArray source_next as_value []
           (DistinctByInner (\<lambda>x. Inr x) comparer [] (Outcomes (map Yields xs @ Yields w # rest))) = Some (Inl e)"
proof -
  from toArray_distinct_elements [OF assms(1), of "[]" xs source_next as_value "[]" "Yields w # rest"] assms(2)
  obtain TEMP' ARR' where
    eq: "EnumerableBase_toArray source_next as_value []
          (DistinctByInner (\<lambda>x. Inr x) comparer [] (Outcomes (map Yields xs @ Yields w # rest)))
        = EnumerableBase_toArray source_next as_value ARR'
            (DistinctByInner (\<lambda>x. Inr x) comparer TEMP' (Outcomes (Yields w # rest)))"
    and sub: "set TEMP' \<subseteq> set xs" and ne: "TEMP' \<noteq> []"
    by auto
  from sub assms(3) have "\<forall>t\<in>set TEMP'. comparer w t = Inl e" by blast
  from found_in_throws [of TEMP' comparer w e, OF ne this]
  have "Enumerable_round source_next as_value
          (DistinctByInner (\<lambda>x. Inr x) comparer TEMP' (Outcomes (Yields w # rest)))
        = Answer (Some (Throws e)) Finished"
    by simp
  from toArray_throws [OF this] eq show ?thesis by simp
qed

lemma construct_without_draining:
  "drained_by call = None \<Longrightarrow>
     \<exists>obj. construct source_next as_value js call upstream = Some (Inr obj)
       \<and> source_of obj = source_of upstream"
  by (cases call)
    (simp_all add: EnumerableBase_select_def EnumerableBase_selectMany_def EnumerableBase_where_def
      EnumerableBase_distinct_def EnumerableBase_distinctBy_def EnumerableBase_union_def
      EnumerableBase_concat_def EnumerableBase_concatArray_def EnumerableBase_skip_def
      EnumerableBase_skipWhile_def EnumerableBase_take_def EnumerableBase_takeWhile_def
      EnumerableBase_intersperse_def EnumerableBase_chunk_def EnumerableBase_clone_def
      EnumerableBase_flatten_def EnumerableBase_zip_def EnumerableBase_pipe_def
      EnumerableBase_cast_def EnumerableBase_abs_def Let_def)

lemma first_pull_reaches_source:
  assumes "drained_by call = None" and "source_next s = (Some (Throws e), s')"
  shows "\<exists>obj. construct source_next as_value js call (Source s) = Some (Inr obj)
       \<and> Enumerable_next source_next as_value obj = Some (Some (Throws e), Finished)"
proof -
  have "\<exists>obj. construct source_next as_value js call (Source s) = Some (Inr obj)
       \<and> Enumerable_round source_next as_value obj = Answer (Some (Throws e)) Finished"
    using assms
    by (cases call)
      (simp_all add: EnumerableBase_select_def EnumerableBase_selectMany_def EnumerableBase_where_def
        EnumerableBase_distinct_def EnumerableBase_distinctBy_def EnumerableBase_union_def
        EnumerableBase_concat_def EnumerableBase_concatArray_def EnumerableBase_skip_def
        EnumerableBase_skipWhile_def EnumerableBase_take_def EnumerableBase_takeWhile_def
        EnumerableBase_intersperse_def EnumerableBase_chunk_def EnumerableBase_clone_def
        EnumerableBase_flatten_def EnumerableBase_zip_def EnumerableBase_pipe_def
        EnumerableBase_cast_def EnumerableBase_abs_def Let_def)
  then show ?thesis using Enumerable_next_Answer by blast
qed

lemma where_first_pull:
  assumes "source_next s = (Some (Yields x), s')" and "call_predicate predicate x = Inr True"
  shows "construct source_next as_value js (Where predicate) (Source s) = Some (Inr (WhereInner predicate (Source s)))
       \<and> Enumerable_next source_next as_value (WhereInner predicate (Source s))
           = Some (Some (Yields x), WhereInner predicate (Source s'))"
  using assms by (simp add: EnumerableBase_where_def Enumerable_next_Answer)

lemma construct_draining_returns:
  assumes "drained_by call = Some second" and "Enumerable_from second = map Yields xs"
    and "\<forall>x\<in>set xs. \<forall>y\<in>set xs. \<exists>b. JS_looseEq js x y = Inr b"
  shows "\<exists>obj. construct source_next as_value js call upstream = Some (Inr obj)
       \<and> source_of obj = source_of upstream"
proof -
  from toArray_distinct_array [OF assms(3), of source_next as_value] obtain arr where
    "EnumerableBase_toArray source_next as_value []
       (DistinctByInner (\<lambda>x. Inr x) (JS_looseEq js) [] (Outcomes (map Yields xs))) = Some (Inr arr)" ..
  with assms(1,2) show ?thesis
    by (cases call)
      (simp_all add: EnumerableBase_except_def EnumerableBase_intersect_def
        EnumerableBase_distinct_def EnumerableBase_distinctBy_def Let_def)
qed

lemma construct_draining_pull_throws:
  assumes "drained_by call = Some second" and "Enumerable_from second = map Yields xs @ Throws e # rest"
    and "\<forall>x\<in>set xs. \<forall>y\<in>set xs. \<exists>b. JS_looseEq js x y = Inr b"
  shows "construct source_next as_value js call upstream = Some (Inl e)"
  using assms(1,2) toArray_distinct_pull_throws [OF assms(3), of source_next as_value e rest]
  by (cases call)
    (simp_all add: EnumerableBase_except_def EnumerableBase_intersect_def
      EnumerableBase_distinct_def EnumerableBase_distinctBy_def Let_def)

lemma construct_draining_comparer_throws:
  assumes "drained_by call = Some second" and "Enumerable_from second = map Yields xs @ Yields w # rest"
    and "xs \<noteq> []" and "\<forall>x\<in>set xs. \<forall>y\<in>set xs. \<exists>b. JS_looseEq js x y = Inr b"
    and "\<forall>v\<in>set xs. JS_looseEq js w v = Inl e"
  shows "construct source_next as_value js call upstream = Some (Inl e)"
  using assms(1,2) toArray_distinct_comparer_throws [OF assms(4,3,5), of source_next as_value rest]
  by (cases call)
    (simp_all add: EnumerableBase_except_def EnumerableBase_intersect_def
      EnumerableBase_distinct_def EnumerableBase_distinctBy_def Let_def)

text \<open>
  C1 (as amended). Calling \<^verbatim>\<open>select\<close>, \<^verbatim>\<open>where\<close>, \<^verbatim>\<open>selectMany\<close>, \<^verbatim>\<open>distinct\<close>, \<^verbatim>\<open>union\<close>, \<^verbatim>\<open>skip\<close>,
  \<^verbatim>\<open>take\<close>, \<^verbatim>\<open>concat\<close>, \<^verbatim>\<open>intersperse\<close>, \<^verbatim>\<open>chunk\<close>, \<^verbatim>\<open>clone\<close>, \<^verbatim>\<open>flatten\<close>, \<^verbatim>\<open>zip\<close>, \<^verbatim>\<open>pipe\<close>, \<^verbatim>\<open>cast\<close> or a
  numeric map on any sequence returns: it does not throw, and the source sequence under
  the sequence it returns is in the state it was in. The pulls come afterwards: if the
  next pull of the source throws, the call still returns, and it is the first \<^verbatim>\<open>next()\<close> of
  the returned sequence that throws that value; and if the next pull of the source
  yields an element that the predicate of \<^verbatim>\<open>where\<close> accepts, the first \<^verbatim>\<open>next()\<close> of the returned
  sequence yields it and leaves the source one pull further. Calling \<^verbatim>\<open>except\<close> or
  \<^verbatim>\<open>intersect\<close> drains the second sequence: when every pull of the second sequence yields
  and \<^verbatim>\<open>==\<close> does not throw on its elements, the call returns, with the source in the state
  it was in; when a pull of the second sequence throws, after elements on which \<^verbatim>\<open>==\<close> does
  not throw, the call throws that value; and when \<^verbatim>\<open>==\<close> throws as it compares an element
  of the second sequence with those before it, the call throws that value.
\<close>

theorem construct_defers_unless_drains:
  "(drained_by call = None \<longrightarrow>
      (\<exists>obj. construct source_next as_value js call upstream = Some (Inr obj)
         \<and> source_of obj = source_of upstream))
   \<and> (drained_by call = None \<and> source_next s = (Some (Throws e), s') \<longrightarrow>
      (\<exists>obj. construct source_next as_value js call (Source s) = Some (Inr obj)
         \<and> Enumerable_next source_next as_value obj = Some (Some (Throws e), Finished)))
   \<and> (source_next t = (Some (Yields x), t') \<and> call_predicate predicate x = Inr True \<longrightarrow>
      construct source_next as_value js (Where predicate) (Source t)
        = Some (Inr (WhereInner predicate (Source t)))
      \<and> Enumerable_next source_next as_value (WhereInner predicate (Source t))
           = Some (Some (Yields x), WhereInner predicate (Source t')))
   \<and> (drained_by draining = Some second \<and> Enumerable_from second = map Yields xs
        \<and> (\<forall>a\<in>set xs. \<forall>b\<in>set xs. \<exists>r. JS_looseEq js a b = Inr r) \<longrightarrow>
      (\<exists>obj. construct source_next as_value js draining upstream = Some (Inr obj)
         \<and> source_of obj = source_of upstream))
   \<and> (drained_by failing = Some second' \<and> Enumerable_from second' = map Yields ys @ Throws e' # rest
        \<and> (\<forall>a\<in>set ys. \<forall>b\<in>set ys. \<exists>r. JS_looseEq js a b = Inr r) \<longrightarrow>
      construct source_next as_value js failing upstream = Some (Inl e'))
   \<and> (drained_by comparing = Some second'' \<and> Enumerable_from second'' = map Yields zs @ Yields w # rest'
        \<and> zs \<noteq> [] \<and> (\<forall>a\<in>set zs. \<forall>b\<in>set zs. \<exists>r. JS_looseEq js' a b = Inr r)
        \<and> (\<forall>v\<in>set zs. JS_looseEq js' w v = Inl e'') \<longrightarrow>
      construct source_next as_value js' comparing upstream = Some (Inl e''))"
proof -
  have 1: "\<exists>obj. construct source_next as_value js call upstream = Some (Inr obj)
         \<and> source_of obj = source_of upstream"
    if "drained_by call = None"
    using that by (rule construct_without_draining)
  have 2: "\<exists>obj. construct source_next as_value js call (Source s) = Some (Inr obj)
         \<and> Enumerable_next source_next as_value obj = Some (Some (Throws e), Finished)"
    if "drained_by call = None" and "source_next s = (Some (Throws e), s')"
    using that by (rule first_pull_reaches_source)
  have 3: "construct source_next as_value js (Where predicate) (Source t)
        = Some (Inr (WhereInner predicate (Source t)))
      \<and> Enumerable_next source_next as_value (WhereInner predicate (Source t))
           = Some (Some (Yields x), WhereInner predicate (Source t'))"
    if "source_next t = (Some (Yields x), t')" and "call_predicate predicate x = Inr True"
    using that by (rule where_first_pull)
  have 4: "\<exists>obj. construct source_next as_value js draining upstream = Some (Inr obj)
         \<and> source_of obj = source_of upstream"
    if "drained_by draining = Some second" and "Enumerable_from second = map Yields xs"
      and "\<forall>a\<in>set xs. \<forall>b\<in>set xs. \<exists>r. JS_looseEq js a b = Inr r"
    using that by (rule construct_draining_returns)
  have 5: "construct source_next as_value js failing upstream = Some (Inl e')"
    if "drained_by failing = Some second'" and "Enumerable_from second' = map Yields ys @ Throws e' # rest"
      and "\<forall>a\<in>set ys. \<forall>b\<in>set ys. \<exists>r. JS_looseEq js a b = Inr r"
    using that by (rule construct_draining_pull_throws)
  have 6: "construct source_next as_value js' comparing upstream = Some (Inl e'')"
    if "drained_by comparing = Some second''" and "Enumerable_from second'' = map Yields zs @ Yields w # rest'"
      and "zs \<noteq> []" and "\<forall>a\<in>set zs. \<forall>b\<in>set zs. \<exists>r. JS_looseEq js' a b = Inr r"
      and "\<forall>v\<in>set zs. JS_looseEq js' w v = Inl e''"
    using that by (rule construct_draining_comparer_throws)
  from 1 2 3 4 5 6 show ?thesis by blast
qed

theorem construct_defers_unless_drains_witness:
  "construct outcomes_next (\<lambda>obj. 0) int_builtins (Where (Predicate_function (\<lambda>x. Inr (1 < x))))
       (Source [Throws (UserThrown ''boom''), Yields (5 :: int)])
     = Some (Inr (WhereInner (Predicate_function (\<lambda>x. Inr (1 < x))) (Source [Throws (UserThrown ''boom''), Yields (5 :: int)])))
   \<and> Enumerable_next outcomes_next (\<lambda>obj. 0)
        (WhereInner (Predicate_function (\<lambda>x. Inr (1 < x))) (Source [Throws (UserThrown ''boom''), Yields (5 :: int)]))
       = Some (Some (Throws (UserThrown ''boom'')), Finished)
   \<and> Enumerable_next outcomes_next (\<lambda>obj. 0)
        (WhereInner (Predicate_function (\<lambda>x. Inr (1 < x))) (Source [Yields (2 :: int), Yields 3]))
       = Some (Some (Yields 2), WhereInner (Predicate_function (\<lambda>x. Inr (1 < x))) (Source [Yields (3 :: int)]))
   \<and> construct outcomes_next (\<lambda>obj. 0) int_builtins (Except (ArrayLike [2, 2]) Comparer_missing)
        (Source [Throws (UserThrown ''boom''), Yields (5 :: int)])
       = Some (Inr (ExceptInner [2] (JS_looseEq int_builtins) (Source [Throws (UserThrown ''boom''), Yields (5 :: int)])))
   \<and> construct outcomes_next (\<lambda>obj. 0) int_builtins
        (Intersect (Iterator [Yields 1, Throws (UserThrown ''boom'')]) Comparer_missing)
        (Source [Throws (UserThrown ''boom''), Yields (5 :: int)])
       = Some (Inl (UserThrown ''boom''))
   \<and> construct outcomes_next (\<lambda>obj. 0)
        (int_builtins\<lparr>JS_looseEq := (\<lambda>x y. if x = y then Inr True else Inl TypeError)\<rparr>)
        (Except (ArrayLike [1, 2]) Comparer_missing)
        (Source [Throws (UserThrown ''boom''), Yields (5 :: int)])
       = Some (Inl TypeError)"
proof -
  let ?p = "Predicate_function (\<lambda>x :: int. Inr (1 < x))"
  let ?src = "[Throws (UserThrown ''boom''), Yields 5] :: int IEnumerable"
  let ?js' = "int_builtins\<lparr>JS_looseEq := (\<lambda>x y. if x = y then Inr True else Inl TypeError)\<rparr>"
  let ?av = "\<lambda>obj :: (int, int IEnumerable) EnumerableObject. 0 :: int"
  have h1: "drained_by (Where ?p) = None" by simp
  have h2: "outcomes_next ?src = (Some (Throws (UserThrown ''boom'')), [Yields 5])" by simp
  have h3: "outcomes_next [Yields 2, Yields (3 :: int)] = (Some (Yields 2), [Yields 3])" by simp
  have h4: "call_predicate ?p 2 = Inr True" by simp
  have h5: "drained_by (Except (ArrayLike [2, 2 :: int]) Comparer_missing) = Some (ArrayLike [2, 2])" by simp
  have h6: "Enumerable_from (ArrayLike [2, 2 :: int]) = map Yields [2, 2]" by simp
  have h7: "\<forall>a\<in>set [2, 2 :: int]. \<forall>b\<in>set [2, 2]. \<exists>r. JS_looseEq int_builtins a b = Inr r"
    by (auto simp: int_builtins_def)
  have h8: "drained_by (Intersect (Iterator [Yields (1 :: int), Throws (UserThrown ''boom'')]) Comparer_missing)
              = Some (Iterator [Yields 1, Throws (UserThrown ''boom'')])" by simp
  have h9: "Enumerable_from (Iterator [Yields (1 :: int), Throws (UserThrown ''boom'')])
              = map Yields [1] @ Throws (UserThrown ''boom'') # []" by simp
  have h10: "\<forall>a\<in>set [1 :: int]. \<forall>b\<in>set [1]. \<exists>r. JS_looseEq int_builtins a b = Inr r"
    by (auto simp: int_builtins_def)
  have h11: "drained_by (Except (ArrayLike [1, 2 :: int]) Comparer_missing) = Some (ArrayLike [1, 2])" by simp
  have h12: "Enumerable_from (ArrayLike [1, 2 :: int]) = map Yields [1] @ Yields 2 # []" by simp
  have h13: "[1 :: int] \<noteq> []" by simp
  have h14: "\<forall>a\<in>set [1 :: int]. \<forall>b\<in>set [1]. \<exists>r. JS_looseEq ?js' a b = Inr r" by auto
  have h15: "\<forall>v\<in>set [1 :: int]. JS_looseEq ?js' 2 v = Inl TypeError" by simp
  have r1: "Enumerable_round outcomes_next ?av
              (DistinctByInner (\<lambda>x. Inr x) (JS_looseEq int_builtins) [] (Outcomes [Yields 2, Yields 2]))
            = Answer (Some (Yields 2))
                (DistinctByInner (\<lambda>x. Inr x) (JS_looseEq int_builtins) [2] (Outcomes [Yields 2]))"
    by simp
  have r2: "Enumerable_round outcomes_next ?av
              (DistinctByInner (\<lambda>x. Inr x) (JS_looseEq int_builtins) [2] (Outcomes [Yields 2]))
            = Again (DistinctByInner (\<lambda>x. Inr x) (JS_looseEq int_builtins) [2] (Outcomes []))"
    by (simp add: int_builtins_def)
  have r3: "Enumerable_round outcomes_next ?av
              (DistinctByInner (\<lambda>x. Inr x) (JS_looseEq int_builtins) [2] (Outcomes []))
            = Answer None Finished"
    by simp
  have arr: "EnumerableBase_toArray outcomes_next ?av []
               (DistinctByInner (\<lambda>x. Inr x) (JS_looseEq int_builtins) [] (Outcomes [Yields 2, Yields 2]))
             = Some (Inr [2])"
    unfolding toArray_yields [OF r1] toArray_Again [OF r2] toArray_done [OF r3] by simp
  have c: "construct outcomes_next ?av int_builtins (Except (ArrayLike [2, 2]) Comparer_missing) (Source ?src)
       = Some (Inr (ExceptInner [2] (JS_looseEq int_builtins) (Source ?src)))"
    by (simp add: EnumerableBase_except_def EnumerableBase_distinct_def EnumerableBase_distinctBy_def
        Let_def arr)
  note inst = construct_defers_unless_drains [where call = "Where ?p" and source_next = outcomes_next
      and as_value = ?av and js = int_builtins and upstream = "Source ?src" and s = ?src
      and e = "UserThrown ''boom''" and s' = "[Yields 5]" and t = "[Yields 2, Yields 3]" and x = 2
      and t' = "[Yields 3]" and predicate = ?p
      and draining = "Except (ArrayLike [2, 2]) Comparer_missing" and second = "ArrayLike [2, 2]"
      and xs = "[2, 2]"
      and failing = "Intersect (Iterator [Yields 1, Throws (UserThrown ''boom'')]) Comparer_missing"
      and second' = "Iterator [Yields 1, Throws (UserThrown ''boom'')]" and ys = "[1]"
      and e' = "UserThrown ''boom''" and rest = "[]"
      and comparing = "Except (ArrayLike [1, 2]) Comparer_missing" and second'' = "ArrayLike [1, 2]"
      and zs = "[1]" and w = 2 and rest' = "[]"
      and js' = ?js' and e'' = TypeError]
  from inst h1 h2 h3 h4 h5 h6 h7 h8 h9 h10 h11 h12 h13 h14 h15 c show ?thesis
    by (simp add: EnumerableBase_where_def)
qed

theorem except_drains_second_counterexample:
  "construct outcomes_next (\<lambda>obj. 0) int_builtins
      (Except (Iterator [Yields 1, Throws (UserThrown ''boom'')]) Comparer_missing)
      (Source [Yields (1 :: int)])
     = Some (Inl (UserThrown ''boom''))"
proof -
  let ?av = "\<lambda>obj :: (int, int IEnumerable) EnumerableObject. 0 :: int"
  have r1: "Enumerable_round outcomes_next ?av
              (DistinctByInner (\<lambda>x. Inr x) (JS_looseEq int_builtins) []
                 (Outcomes [Yields 1, Throws (UserThrown ''boom'')]))
            = Answer (Some (Yields 1))
                (DistinctByInner (\<lambda>x. Inr x) (JS_looseEq int_builtins) [1]
                   (Outcomes [Throws (UserThrown ''boom'')]))"
    by simp
  have r2: "Enumerable_round outcomes_next ?av
              (DistinctByInner (\<lambda>x. Inr x) (JS_looseEq int_builtins) [1]
                 (Outcomes [Throws (UserThrown ''boom'')]))
            = Answer (Some (Throws (UserThrown ''boom''))) Finished"
    by simp
  have "EnumerableBase_toArray outcomes_next ?av []
          (DistinctByInner (\<lambda>x. Inr x) (JS_looseEq int_builtins) []
             (Outcomes [Yields 1, Throws (UserThrown ''boom'')]))
        = Some (Inl (UserThrown ''boom''))"
    unfolding toArray_yields [OF r1] by (simp add: toArray_throws [OF r2])
  then show ?thesis
    by (simp add: EnumerableBase_except_def EnumerableBase_distinct_def EnumerableBase_distinctBy_def Let_def)
qed

end
